theory Spec2Isabelle
  imports Main "HOL-Library.Word" "HOL-Library.AList"
begin

unbundle bit_operations_syntax

section \<open>Data model\<close>

type_synonym u8 = "8 word"
type_synonym u16 = "16 word"
type_synonym u32 = "32 word"

text \<open>
  The fields of an aligned read (htslib's \<open>bam1_t\<close>) that \<open>shortpe.h\<close> reads:
  \<open>rec->core.flag\<close>, \<open>qual\<close>, \<open>tid\<close>, \<open>pos\<close>, \<open>mtid\<close>, \<open>mpos\<close>, \<open>isize\<close>,
  the query name, the CIGAR array of packed 32-bit operations and the packed sequence
  (one 4-bit code per base, read with \<open>bam_seqi\<close>; \<open>l_qseq\<close> is its length).
\<close>

record BamRec =
  flag :: u16
  qual :: u8
  tid :: int
  pos :: int
  mtid :: int
  mpos :: int
  isize :: int
  qname :: string
  cigar :: "u32 list"
  seqi :: "4 word list"

text \<open>The flag bits and CIGAR operation codes of htslib's \<open>sam.h\<close>.\<close>

definition BAM_FPAIRED :: u16 where "BAM_FPAIRED = 1"
definition BAM_FUNMAP :: u16 where "BAM_FUNMAP = 4"
definition BAM_FMUNMAP :: u16 where "BAM_FMUNMAP = 8"
definition BAM_FREVERSE :: u16 where "BAM_FREVERSE = 16"
definition BAM_FSECONDARY :: u16 where "BAM_FSECONDARY = 256"
definition BAM_FQCFAIL :: u16 where "BAM_FQCFAIL = 512"
definition BAM_FDUP :: u16 where "BAM_FDUP = 1024"
definition BAM_FSUPPLEMENTARY :: u16 where "BAM_FSUPPLEMENTARY = 2048"

definition BAM_CMATCH :: u32 where "BAM_CMATCH = 0"
definition BAM_CINS :: u32 where "BAM_CINS = 1"
definition BAM_CDEL :: u32 where "BAM_CDEL = 2"
definition BAM_CREF_SKIP :: u32 where "BAM_CREF_SKIP = 3"
definition BAM_CSOFT_CLIP :: u32 where "BAM_CSOFT_CLIP = 4"
definition BAM_CHARD_CLIP :: u32 where "BAM_CHARD_CLIP = 5"
definition BAM_CEQUAL :: u32 where "BAM_CEQUAL = 7"
definition BAM_CDIFF :: u32 where "BAM_CDIFF = 8"

definition bam_cigar_op :: "u32 \<Rightarrow> u32" where
  "bam_cigar_op x = x AND 15"

definition bam_cigar_oplen :: "u32 \<Rightarrow> u32" where
  "bam_cigar_oplen x = drop_bit 4 x"

definition bam_cigar_gen :: "u32 \<Rightarrow> u32 \<Rightarrow> u32" where
  "bam_cigar_gen l opc = push_bit 4 l OR opc"

text \<open>
  The configuration \<open>TConfig\<close> is a template parameter of both routines; its declaration
  is not part of \<open>shortpe.h\<close>. The thresholds are kept as the natural numbers they hold,
  and every comparison of the source is made on the value of the machine integer it
  compares them with.
\<close>

record Config =
  minMapQual :: nat
  minTraQual :: nat
  minRefSep :: nat
  minClip :: nat
  svtcmd :: bool
  svtset :: "int set"

text \<open>
  Modelled from the spec: \<open>Junction\<close> and \<open>_insertJunction\<close> of \<open>junction.h\<close>, which is not
  part of \<open>shortpe.h\<close>. A junction holds the reference id, the reference position, the
  read-sequence offset, the strand of the anchoring segment and the \<open>scleft\<close> flag;
  \<open>_insertJunction\<close> appends one junction to the junction list the map \<open>readBp\<close> keeps
  for the read's seed.
\<close>

record Junction =
  forward :: bool
  scleft :: bool
  refidx :: int
  refpos :: u32
  seqpos :: u32

type_synonym TReadBp = "u32 \<rightharpoonup> Junction list"

definition junctionsOf :: "TReadBp \<Rightarrow> u32 \<Rightarrow> Junction list" where
  "junctionsOf readBp seed = (case readBp seed of None \<Rightarrow> [] | Some js \<Rightarrow> js)"

definition insertJunction ::
  "TReadBp \<Rightarrow> u32 \<Rightarrow> BamRec \<Rightarrow> u32 \<Rightarrow> u32 \<Rightarrow> bool \<Rightarrow> TReadBp" where
  "insertJunction readBp seed rec rp sp scl =
     readBp(seed \<mapsto> junctionsOf readBp seed @
       [\<lparr>forward = (flag rec AND BAM_FREVERSE = 0), scleft = scl,
         refidx = tid rec, refpos = rp, seqpos = sp\<rparr>])"

section \<open>Junction extraction: the CIGAR loop of scanPEandSR\<close>

text \<open>
  One iteration of the loop over \<open>rec->core.n_cigar\<close> (lines 280 to 307). The state is the
  reference pointer \<open>rp\<close>, the sequence pointer \<open>sp\<close> (both \<open>uint32_t\<close>) and the junction
  map. The inner loop of the match case increments both pointers \<open>oplen\<close> times, which
  is the wrapping addition of \<open>oplen\<close>. An unknown operation prints a warning and changes
  nothing.
\<close>

definition cigarOp ::
  "Config \<Rightarrow> u32 \<Rightarrow> BamRec \<Rightarrow> u32 \<Rightarrow> u32 \<times> u32 \<times> TReadBp \<Rightarrow> u32 \<times> u32 \<times> TReadBp" where
  "cigarOp c seed rec x st =
     (case st of (rp, sp, readBp) \<Rightarrow>
       let opc = bam_cigar_op x; oplen = bam_cigar_oplen x in
       if opc = BAM_CMATCH \<or> opc = BAM_CEQUAL \<or> opc = BAM_CDIFF then
         (rp + oplen, sp + oplen, readBp)
       else if opc = BAM_CDEL then
         (let readBp1 = (if unat oplen > minRefSep c
                          then insertJunction readBp seed rec rp sp False else readBp);
              rp1 = rp + oplen;
              readBp2 = (if unat oplen > minRefSep c
                          then insertJunction readBp1 seed rec rp1 sp True else readBp1)
          in (rp1, sp, readBp2))
       else if opc = BAM_CINS then
         (rp, sp + oplen, readBp)
       else if opc = BAM_CSOFT_CLIP \<or> opc = BAM_CHARD_CLIP then
         (let finalsp = (if sp = 0 then sp + oplen else sp);
              scl = (sp = 0);
              sp1 = sp + oplen
          in (rp, sp1,
              if unat oplen > minClip c
              then insertJunction readBp seed rec rp finalsp scl else readBp))
       else if opc = BAM_CREF_SKIP then
         (rp + oplen, sp, readBp)
       else (rp, sp, readBp))"

text \<open>
  The whole CIGAR loop of one read: \<open>rp\<close> starts at the read's position, \<open>sp\<close> at zero,
  and only the junction map outlives the read.
\<close>

definition parseCigar :: "Config \<Rightarrow> u32 \<Rightarrow> BamRec \<Rightarrow> TReadBp \<Rightarrow> TReadBp" where
  "parseCigar c seed rec readBp =
     snd (snd (fold (cigarOp c seed rec) (cigar rec) (word_of_int (pos rec), 0, readBp)))"

section \<open>Collaborators declared outside shortpe.h\<close>

text \<open>
  \<open>shortpe.h\<close> calls functions of \<open>util.h\<close>, \<open>tags.h\<close>, \<open>msa.h\<close> and \<open>split.h\<close>, none
  of which is part of the file. They are parameters of the model: the constant
  \<open>DELLY_SVT_TRANS\<close>, the hashes of a read name and of a pair, the alignment length, the
  pair classifier \<open>_isizeMappingPos\<close>, the first-mate predicate \<open>_firstPairObs\<close>, the two
  overloads of \<open>_translocation\<close> (on a read and on an SV type), \<open>_adjustOrientation\<close>,
  the MSA primitive (its third argument is the consensus it writes, passed in and out)
  and \<open>alignConsensus\<close>, which receives the SV record by reference and returns whether
  it succeeded together with the record as it leaves it.
\<close>

text \<open>
  Modelled from the spec: the declaration of \<open>StructuralVariantRecord\<close>, which is not
  part of \<open>shortpe.h\<close>. The file itself reads or writes \<open>id\<close>, \<open>svt\<close>, \<open>svStart\<close>,
  \<open>srSupport\<close> and \<open>consensus\<close>; the other fields are those of the spec's data model.
\<close>

record StructuralVariantRecord =
  id_sv :: int
  svt :: int
  chr :: int
  svStart :: int
  chr2 :: int
  svEnd :: int
  peSupport :: int
  srSupport :: int
  precise :: bool
  consensus :: string
  srAlignQuality :: int

record Helpers =
  DELLY_SVT_TRANS :: nat
  hash_string :: "string \<Rightarrow> nat"
  hash_pair :: "BamRec \<Rightarrow> nat"
  hash_pair_mate :: "BamRec \<Rightarrow> nat"
  alignmentLength :: "BamRec \<Rightarrow> int"
  isizeMappingPos :: "BamRec \<Rightarrow> int \<Rightarrow> int"
  firstPairObs :: "BamRec \<Rightarrow> nat set \<Rightarrow> bool"
  translocationRec :: "BamRec \<Rightarrow> bool"
  translocationSvt :: "int \<Rightarrow> bool"
  adjustOrientation :: "string \<Rightarrow> bool \<Rightarrow> int \<Rightarrow> string"
  msa :: "string list \<Rightarrow> string \<Rightarrow> string"
  alignConsensus :: "nat \<Rightarrow> StructuralVariantRecord \<Rightarrow> bool \<times> StructuralVariantRecord"

text \<open>
  Indexing a vector or a bitset outside its bounds is undefined in the source; the
  model makes it an error value.
\<close>

datatype error = OutOfRange

section \<open>Paired-end scanning: the read loop of scanPEandSR\<close>

text \<open>
  The library parameters of one sample that the scanner reads (\<open>sampleLib[file_c]\<close>;
  the type is a template parameter). The counter \<open>abnormal_pairs\<close>, which the scanner
  increments, is part of the scanner's state below.
\<close>

record LibraryInfo =
  median :: int
  mad :: int
  maxNormalISize :: int
  maxISizeCutoff :: int
  rs :: int

text \<open>
  Modelled from the spec: the constructor of \<open>BamAlignRecord\<close>, which is not part of
  \<open>shortpe.h\<close>. The record keeps what line 364 passes to it: the read, the pair
  quality, both alignment lengths and the library's median, MAD and maximum normal
  insert size.
\<close>

record BamAlignRecord =
  fromRec :: BamRec
  pairQuality :: u8
  alen :: int
  malen :: int
  libMedian :: int
  libMad :: int
  libMaxNormalISize :: int

type_synonym TMateMap = "nat \<rightharpoonup> (u8 \<times> int)"

text \<open>
  The state of the worker of one sample: the junction map \<open>readBp\<close>, the
  inter-chromosomal mate map \<open>matetra[file_c]\<close>, the intra-chromosomal mate map, the
  position-local dedup state, the pair-evidence vectors \<open>bamRecord\<close> (one per SV type)
  and the sample's counter of abnormal pairs.
\<close>

record scan_state =
  readBp :: TReadBp
  matetra :: TMateMap
  mateMap :: TMateMap
  lastAlignedPos :: int
  lastAlignedPosReads :: "nat set"
  bamRecord :: "BamAlignRecord list list"
  abnormal_pairs :: nat

definition scanFilterFlags :: u16 where
  "scanFilterFlags = BAM_FQCFAIL OR BAM_FDUP OR BAM_FUNMAP"

text \<open>
  Lines 348 to 352 and 355 to 359 are the same code on the two mate maps: the second
  mate is discarded when the hash is absent or the stored quality is zero; otherwise
  the pair quality is the minimum of the stored and the read's own quality, and the
  stored quality is zeroed.
\<close>

definition secondRead :: "TMateMap \<Rightarrow> nat \<Rightarrow> BamRec \<Rightarrow> (u8 \<times> int \<times> TMateMap) option" where
  "secondRead m hv rec =
     (case m hv of
        None \<Rightarrow> None
      | Some p \<Rightarrow>
          if fst p = 0 then None
          else Some (min (fst p) (qual rec), snd p, m(hv \<mapsto> (0, snd p))))"

text \<open>Lines 362 to 366: the append to \<open>bamRecord[svt]\<close> and the counter.\<close>

definition pushEvidence :: "int \<Rightarrow> BamAlignRecord \<Rightarrow> scan_state \<Rightarrow> error + scan_state" where
  "pushEvidence t b st =
     (if 0 \<le> t \<and> nat t < length (bamRecord st)
      then Inr (st\<lparr>bamRecord := (bamRecord st)[nat t := bamRecord st ! nat t @ [b]],
                   abnormal_pairs := abnormal_pairs st + 1\<rparr>)
      else Inl OutOfRange)"

definition evidence :: "Helpers \<Rightarrow> LibraryInfo \<Rightarrow> BamRec \<Rightarrow> u8 \<Rightarrow> int \<Rightarrow> BamAlignRecord" where
  "evidence h lib rec pq alenmate =
     \<lparr>fromRec = rec, pairQuality = pq, alen = alignmentLength h rec, malen = alenmate,
      libMedian = median lib, libMad = mad lib, libMaxNormalISize = maxNormalISize lib\<rparr>"

text \<open>Lines 328 to 367, for a pair that passed every gate, classified as \<open>t\<close>.\<close>

definition mateReconcile ::
  "Helpers \<Rightarrow> LibraryInfo \<Rightarrow> u32 \<Rightarrow> int \<Rightarrow> BamRec \<Rightarrow> scan_state \<Rightarrow> error + scan_state" where
  "mateReconcile h lib seed t rec st =
     (let st1 = (if pos rec > lastAlignedPos st
                 then st\<lparr>lastAlignedPosReads := {}, lastAlignedPos := pos rec\<rparr> else st)
      in if firstPairObs h rec (lastAlignedPosReads st1) then
           (let st2 = st1\<lparr>lastAlignedPosReads :=
                         insert (unat seed) (lastAlignedPosReads st1)\<rparr>;
                hv = hash_pair h rec
            in if translocationSvt h t
               then Inr (st2\<lparr>matetra := (matetra st2)(hv \<mapsto> (qual rec, alignmentLength h rec))\<rparr>)
               else Inr (st2\<lparr>mateMap := (mateMap st2)(hv \<mapsto> (qual rec, alignmentLength h rec))\<rparr>))
         else
           (let hv = hash_pair_mate h rec
            in if translocationSvt h t then
                 (case secondRead (matetra st1) hv rec of
                    None \<Rightarrow> Inr st1
                  | Some (pq, alenmate, m) \<Rightarrow>
                      pushEvidence t (evidence h lib rec pq alenmate) (st1\<lparr>matetra := m\<rparr>))
               else
                 (case secondRead (mateMap st1) hv rec of
                    None \<Rightarrow> Inr st1
                  | Some (pq, alenmate, m) \<Rightarrow>
                      pushEvidence t (evidence h lib rec pq alenmate) (st1\<lparr>mateMap := m\<rparr>))))"

text \<open>
  Lines 310 to 368: the paired-end part of one read. \<open>overallMaxISize\<close> is computed once
  per sample at line 231.
\<close>

definition overallMaxISize :: "LibraryInfo \<Rightarrow> int" where
  "overallMaxISize lib = max (maxISizeCutoff lib) (rs lib)"

definition pairedEnd ::
  "Helpers \<Rightarrow> Config \<Rightarrow> LibraryInfo \<Rightarrow> (int \<times> int) list list \<Rightarrow> u32 \<Rightarrow> BamRec \<Rightarrow>
   scan_state \<Rightarrow> error + scan_state" where
  "pairedEnd h c lib validRegions seed rec st =
     (if flag rec AND BAM_FPAIRED = 0 then Inr st
      else if median lib = 0 then Inr st
      else if flag rec AND (BAM_FSECONDARY OR BAM_FSUPPLEMENTARY) \<noteq> 0 then Inr st
      else if mtid rec < 0 \<or> flag rec AND BAM_FMUNMAP \<noteq> 0 then Inr st
      else if \<not> nat (mtid rec) < length validRegions then Inl OutOfRange
      else if validRegions ! nat (mtid rec) = [] then Inr st
      else if translocationRec h rec \<and> unat (qual rec) < minTraQual c then Inr st
      else
        (let t = isizeMappingPos h rec (overallMaxISize lib) in
         if t = - 1 then Inr st
         else if svtcmd c \<and> t \<notin> svtset c then Inr st
         else if t = 2 \<and> maxISizeCutoff lib > \<bar>isize rec\<bar> then Inr st
         else mateReconcile h lib seed t rec st))"

text \<open>
  One iteration of the loop over the reads of a region (lines 268 to 368): the input
  filters, the seed (the hash of the read name, held in an \<open>unsigned\<close>), the CIGAR
  loop and the paired-end part.
\<close>

definition passesScanFilter :: "Config \<Rightarrow> BamRec \<Rightarrow> bool" where
  "passesScanFilter c rec =
     (flag rec AND scanFilterFlags = 0 \<and> \<not> (unat (qual rec) < minMapQual c \<or> tid rec < 0))"

definition seedOf :: "Helpers \<Rightarrow> BamRec \<Rightarrow> u32" where
  "seedOf h rec = word_of_nat (hash_string h (qname rec))"

definition scanRead ::
  "Helpers \<Rightarrow> Config \<Rightarrow> LibraryInfo \<Rightarrow> (int \<times> int) list list \<Rightarrow> BamRec \<Rightarrow>
   scan_state \<Rightarrow> error + scan_state" where
  "scanRead h c lib validRegions rec st =
     (if \<not> passesScanFilter c rec then Inr st
      else
        (let seed = seedOf h rec;
             st1 = st\<lparr>readBp := parseCigar c seed rec (readBp st)\<rparr>
         in pairedEnd h c lib validRegions seed rec st1))"

fun scanReads ::
  "Helpers \<Rightarrow> Config \<Rightarrow> LibraryInfo \<Rightarrow> (int \<times> int) list list \<Rightarrow> BamRec list \<Rightarrow>
   scan_state \<Rightarrow> error + scan_state" where
  "scanReads h c lib validRegions [] st = Inr st"
| "scanReads h c lib validRegions (rec # recs) st =
     (case scanRead h c lib validRegions rec st of
        Inl e \<Rightarrow> Inl e
      | Inr st' \<Rightarrow> scanReads h c lib validRegions recs st')"

text \<open>
  The loop over the valid-region intervals of one reference (lines 263 to 372): each
  interval starts with \<open>lastAlignedPos = 0\<close> and an empty dedup set. The reads the
  region query returns for each interval are the input.
\<close>

fun scanIntervals ::
  "Helpers \<Rightarrow> Config \<Rightarrow> LibraryInfo \<Rightarrow> (int \<times> int) list list \<Rightarrow> BamRec list list \<Rightarrow>
   scan_state \<Rightarrow> error + scan_state" where
  "scanIntervals h c lib validRegions [] st = Inr st"
| "scanIntervals h c lib validRegions (recs # rest) st =
     (case scanReads h c lib validRegions recs
             (st\<lparr>lastAlignedPos := 0, lastAlignedPosReads := {}\<rparr>) of
        Inl e \<Rightarrow> Inl e
      | Inr st' \<Rightarrow> scanIntervals h c lib validRegions rest st')"

text \<open>
  The loop over the references for one sample (lines 244 to 373). Each reference comes
  with the number of mapped reads the index reports and the reads of its intervals; a
  reference is skipped when it has no valid region, or when the file is not a CRAM file
  and the index reports no mapped read. The intra-chromosomal mate map starts empty on
  every reference that is not skipped.
\<close>

fun scanRefs ::
  "Helpers \<Rightarrow> Config \<Rightarrow> LibraryInfo \<Rightarrow> (int \<times> int) list list \<Rightarrow> bool \<Rightarrow> nat \<Rightarrow>
   (nat \<times> BamRec list list) list \<Rightarrow> scan_state \<Rightarrow> error + scan_state" where
  "scanRefs h c lib validRegions isCram refIndex [] st = Inr st"
| "scanRefs h c lib validRegions isCram refIndex (ref # rest) st =
     (if \<not> refIndex < length validRegions then Inl OutOfRange
      else if validRegions ! refIndex = [] \<or> (\<not> isCram \<and> fst ref = 0) then
        scanRefs h c lib validRegions isCram (Suc refIndex) rest st
      else
        (case scanIntervals h c lib validRegions (snd ref) (st\<lparr>mateMap := Map.empty\<rparr>) of
           Inl e \<Rightarrow> Inl e
         | Inr st' \<Rightarrow> scanRefs h c lib validRegions isCram (Suc refIndex) rest st'))"

text \<open>
  The worker of one sample (the body of the loop of line 229, up to line 373): its own
  mate maps and junction map start empty, the pair-evidence vectors and the counter
  are the shared ones.
\<close>

text \<open>Line 221: one empty evidence vector per SV type.\<close>

definition emptyBamRecord :: "Helpers \<Rightarrow> BamAlignRecord list list" where
  "emptyBamRecord h = replicate (2 * DELLY_SVT_TRANS h) []"

definition initScan :: "BamAlignRecord list list \<Rightarrow> nat \<Rightarrow> scan_state" where
  "initScan bamRecord0 abnormal0 =
     \<lparr>readBp = Map.empty, matetra = Map.empty, mateMap = Map.empty,
      lastAlignedPos = 0, lastAlignedPosReads = {},
      bamRecord = bamRecord0, abnormal_pairs = abnormal0\<rparr>"

definition scanSample ::
  "Helpers \<Rightarrow> Config \<Rightarrow> LibraryInfo \<Rightarrow> (int \<times> int) list list \<Rightarrow> bool \<Rightarrow>
   (nat \<times> BamRec list list) list \<Rightarrow> BamAlignRecord list list \<Rightarrow> nat \<Rightarrow>
   error + scan_state" where
  "scanSample h c lib validRegions isCram refs bamRecord0 abnormal0 =
     scanRefs h c lib validRegions isCram 0 refs (initScan bamRecord0 abnormal0)"

definition allEvidence :: "error + scan_state \<Rightarrow> BamAlignRecord list" where
  "allEvidence r = (case r of Inl e \<Rightarrow> [] | Inr st \<Rightarrow> concat (bamRecord st))"

text \<open>The reads of a sample that lie on a reference the worker does not skip.\<close>

fun scannedReads :: "(int \<times> int) list list \<Rightarrow> bool \<Rightarrow> nat \<Rightarrow>
   (nat \<times> BamRec list list) list \<Rightarrow> BamRec list" where
  "scannedReads validRegions isCram refIndex [] = []"
| "scannedReads validRegions isCram refIndex (ref # rest) =
     (if validRegions ! refIndex = [] \<or> (\<not> isCram \<and> fst ref = 0)
      then scannedReads validRegions isCram (Suc refIndex) rest
      else concat (snd ref) @ scannedReads validRegions isCram (Suc refIndex) rest)"

text \<open>The junction extraction alone, over a list of reads (lines 269 to 307).\<close>

definition extractJunctions :: "Helpers \<Rightarrow> Config \<Rightarrow> BamRec list \<Rightarrow> TReadBp \<Rightarrow> TReadBp" where
  "extractJunctions h c recs bp =
     fold (\<lambda>rec bp. if passesScanFilter c rec then parseCigar c (seedOf h rec) rec bp else bp)
       recs bp"

text \<open>
  What the scanner guarantees of a pair-evidence record, given the reads \<open>recs\<close> of the
  sample: it was built from a read \<open>r2\<close> whose pair hash is the one a read \<open>r1\<close> was
  stored under, its pair quality is the minimum of the two mapping qualities, and
  neither quality is below \<open>minMapQual\<close>.
\<close>

definition pairEvidenceOK :: "Helpers \<Rightarrow> Config \<Rightarrow> BamRec list \<Rightarrow> BamAlignRecord \<Rightarrow> bool" where
  "pairEvidenceOK h c recs b =
     (\<exists>r1 \<in> set recs. \<exists>r2 \<in> set recs.
        hash_pair h r1 = hash_pair_mate h r2 \<and> fromRec b = r2 \<and>
        pairQuality b = min (qual r1) (qual r2) \<and>
        minMapQual c \<le> unat (qual r1) \<and> minMapQual c \<le> unat (qual r2))"

text \<open>
  Invariants of the worker's state, relative to the reads \<open>recs\<close> of the sample and the
  evidence \<open>bam0\<close> the vectors held before: a mate-map entry with a non-zero quality was
  stored from a read of the sample that passed the quality filter, and every evidence
  record is an old one or satisfies \<open>pairEvidenceOK\<close>.
\<close>

definition mapOK :: "Helpers \<Rightarrow> Config \<Rightarrow> BamRec list \<Rightarrow> TMateMap \<Rightarrow> bool" where
  "mapOK h c recs m =
     (\<forall>k q l. m k = Some (q, l) \<longrightarrow> q = 0 \<or>
        (\<exists>r \<in> set recs. hash_pair h r = k \<and> qual r = q \<and> minMapQual c \<le> unat (qual r)))"

definition evidenceOK ::
  "Helpers \<Rightarrow> Config \<Rightarrow> BamRec list \<Rightarrow> BamAlignRecord list list \<Rightarrow> scan_state \<Rightarrow> bool" where
  "evidenceOK h c recs bam0 st =
     (\<forall>b \<in> set (concat (bamRecord st)).
        b \<in> set (concat bam0) \<or> pairEvidenceOK h c recs b)"

definition scanInv ::
  "Helpers \<Rightarrow> Config \<Rightarrow> BamRec list \<Rightarrow> BamAlignRecord list list \<Rightarrow> scan_state \<Rightarrow> bool" where
  "scanInv h c recs bam0 st =
     (mapOK h c recs (matetra st) \<and> mapOK h c recs (mateMap st) \<and>
      evidenceOK h c recs bam0 st)"

definition sameEvidence :: "scan_state \<Rightarrow> scan_state \<Rightarrow> bool" where
  "sameEvidence st st' =
     (bamRecord st' = bamRecord st \<and> abnormal_pairs st' = abnormal_pairs st \<and>
      matetra st' = matetra st)"

section \<open>Tracking the split reads: the last loop of scanPEandSR\<close>

text \<open>
  The SR back-index of one reference: a map from (position, read-id hash) to svid, kept
  as an association list with one entry per key.
\<close>

type_synonym TPosReadSV = "((int \<times> nat) \<times> int) list"
type_synonym TSRStore = "TPosReadSV list"

text \<open>
  Modelled from the spec: \<open>SRBamRecord\<close> of \<open>junction.h\<close>, which is not part of
  \<open>shortpe.h\<close>: the two breakpoints (chr, pos) and (chr2, pos2), the read identifier
  and the \<open>svid\<close> that clustering assigns (\<open>-1\<close> until assigned).
\<close>

record SRBamRecord =
  chr_sr :: int
  pos_sr :: int
  chr2_sr :: int
  pos2_sr :: int
  id_sr :: nat
  svid_sr :: int

text \<open>
  The body of the loop of lines 428 to 436 for one record. \<open>srStore[chr][key] = svid\<close>
  inserts the key or overwrites the value it has.
\<close>

definition trackOne :: "SRBamRecord \<Rightarrow> TSRStore \<Rightarrow> error + TSRStore" where
  "trackOne r store =
     (if svid_sr r \<noteq> - 1 then
        (if \<not> (0 \<le> chr_sr r \<and> nat (chr_sr r) < length store) then Inl OutOfRange
         else
           (let store1 = store[nat (chr_sr r) :=
                  AList.update (pos_sr r, id_sr r) (svid_sr r) (store ! nat (chr_sr r))]
            in if \<not> (0 \<le> chr2_sr r \<and> nat (chr2_sr r) < length store1) then Inl OutOfRange
               else Inr (store1[nat (chr2_sr r) :=
                  AList.update (pos2_sr r, id_sr r) (svid_sr r) (store1 ! nat (chr2_sr r))])))
      else Inr store)"

fun trackAll :: "SRBamRecord list \<Rightarrow> TSRStore \<Rightarrow> error + TSRStore" where
  "trackAll [] store = Inr store"
| "trackAll (r # rest) store =
     (case trackOne r store of Inl e \<Rightarrow> Inl e | Inr store' \<Rightarrow> trackAll rest store')"

text \<open>The two nested loops visit the records of \<open>srBR\<close> SV type by SV type, in order.\<close>

definition trackSplitReads :: "SRBamRecord list list \<Rightarrow> TSRStore \<Rightarrow> error + TSRStore" where
  "trackSplitReads srBR store = trackAll (concat srBR) store"

text \<open>
  Reading the back-index at a reference and a key; \<open>writes r c k\<close> says that the record
  \<open>r\<close> is assigned and has \<open>k\<close> on reference \<open>c\<close> as one of its two endpoints, and
  \<open>lastWrite\<close> follows a key through the loop.
\<close>

definition lookupSR :: "TSRStore \<Rightarrow> int \<Rightarrow> int \<times> nat \<Rightarrow> int option" where
  "lookupSR store c k =
     (if 0 \<le> c \<and> nat c < length store then map_of (store ! nat c) k else None)"

definition writes :: "SRBamRecord \<Rightarrow> int \<Rightarrow> int \<times> nat \<Rightarrow> bool" where
  "writes r c k =
     (svid_sr r \<noteq> - 1 \<and>
      ((chr_sr r = c \<and> (pos_sr r, id_sr r) = k) \<or>
       (chr2_sr r = c \<and> (pos2_sr r, id_sr r) = k)))"

definition sharesKey :: "SRBamRecord \<Rightarrow> SRBamRecord \<Rightarrow> bool" where
  "sharesKey r' r =
     (writes r' (chr_sr r) (pos_sr r, id_sr r) \<or> writes r' (chr2_sr r) (pos2_sr r, id_sr r))"

fun lastWrite :: "SRBamRecord list \<Rightarrow> int \<Rightarrow> int \<times> nat \<Rightarrow> int option \<Rightarrow> int option" where
  "lastWrite [] c k acc = acc"
| "lastWrite (r # rest) c k acc =
     lastWrite rest c k (if writes r c k then Some (svid_sr r) else acc)"

section \<open>Split-read assembly: assembleSplitReads\<close>

definition maxReadPerSV :: nat where
  "maxReadPerSV = 20"

text \<open>
  The state of the pass over one reference: the SV records (shared with the caller),
  the sequences gathered per SV, the per-SV done flag, and the trace of the SVs for
  which the MSA primitive and the consensus aligner were invoked (lines 165 to 167),
  in order.
\<close>

record asm_state =
  svs :: "StructuralVariantRecord list"
  seqStore :: "string list list"
  svDone :: "bool list"
  calls :: "nat list"

definition initState :: "StructuralVariantRecord list \<Rightarrow> nat list \<Rightarrow> asm_state" where
  "initState svs0 calls0 =
     \<lparr>svs = svs0, seqStore = replicate (length svs0) [],
      svDone = replicate (length svs0) False, calls = calls0\<rparr>"

definition decodeBase :: "4 word \<Rightarrow> char" where
  "decodeBase b = ''=ACMGRSVTWYHKDBN'' ! unat b"

definition asmFilterFlags :: u16 where
  "asmFilterFlags =
     BAM_FQCFAIL OR BAM_FDUP OR BAM_FUNMAP OR BAM_FSECONDARY OR BAM_FSUPPLEMENTARY"

text \<open>
  The read's sequence, decoded from the 4-bit packing and orientation-adjusted (lines
  140 to 152).
\<close>

definition orientedSequence ::
  "Helpers \<Rightarrow> nat \<Rightarrow> BamRec \<Rightarrow> StructuralVariantRecord \<Rightarrow> string" where
  "orientedSequence h refIndex rec sv =
     (let sequence = map decodeBase (seqi rec);
          bpPoint = (if translocationRec h rec then mtid rec = int refIndex
                     else pos rec > svStart sv)
      in adjustOrientation h sequence bpPoint (svt sv))"

text \<open>
  One read of the inner loop (lines 128 to 157). \<open>tlen\<close> is the length of the current
  reference, the size of the bitset \<open>hits\<close>; \<open>sr\<close> is \<open>srStore[refIndex]\<close>. The bitset
  holds the positions of the keys of \<open>sr\<close>.
\<close>

definition gatherRead ::
  "Helpers \<Rightarrow> Config \<Rightarrow> nat \<Rightarrow> nat \<Rightarrow> TPosReadSV \<Rightarrow> BamRec \<Rightarrow> asm_state \<Rightarrow> error + asm_state" where
  "gatherRead h c refIndex tlen sr rec st =
     (if flag rec AND asmFilterFlags \<noteq> 0 then Inr st
      else if unat (qual rec) < minMapQual c \<or> tid rec < 0 then Inr st
      else if \<not> (0 \<le> pos rec \<and> pos rec < int tlen) then Inl OutOfRange
      else if pos rec \<notin> set (map (fst \<circ> fst) sr) then Inr st
      else
        (let seed = hash_string h (qname rec) in
         case map_of sr (pos rec, seed) of
           None \<Rightarrow> Inr st
         | Some svid \<Rightarrow>
             if \<not> (0 \<le> svid \<and> nat svid < length (svs st)) then Inl OutOfRange
             else if svid = id_sv (svs st ! nat svid) then
               (let adjusted = orientedSequence h refIndex rec (svs st ! nat svid)
                in if \<not> svDone st ! nat svid \<and>
                      length (seqStore st ! nat svid) < maxReadPerSV
                   then Inr (st\<lparr>seqStore :=
                          (seqStore st)[nat svid := seqStore st ! nat svid @ [adjusted]]\<rparr>)
                   else Inr st)
             else Inr st))"

text \<open>
  One iteration of the loop over the SVs that closes a valid-region interval (lines 161
  to 178). \<open>(uint32_t) svs[svid].srSupport\<close> is the support count reduced modulo
  \<open>2 ^ 32\<close>.
\<close>

definition svComplete :: "asm_state \<Rightarrow> nat \<Rightarrow> bool" where
  "svComplete st svid =
     (length (seqStore st ! svid) = maxReadPerSV \<or>
      length (seqStore st ! svid) = nat (srSupport (svs st ! svid) mod 2 ^ 32))"


definition completeSV :: "Helpers \<Rightarrow> nat \<Rightarrow> nat \<Rightarrow> asm_state \<Rightarrow> asm_state" where
  "completeSV h refIndex svid st =
     (if \<not> svDone st ! svid \<and> svComplete st svid then
        (let st1 =
           (if \<not> translocationSvt h (svt (svs st ! svid)) \<and> length (seqStore st ! svid) > 1
            then
              (let sv1 = (svs st ! svid)
                     \<lparr>consensus := msa h (seqStore st ! svid) (consensus (svs st ! svid))\<rparr>;
                   r = alignConsensus h refIndex sv1;
                   sv2 = (if \<not> fst r then (snd r)\<lparr>consensus := [], srSupport := 0\<rparr>
                          else snd r)
               in st\<lparr>svs := (svs st)[svid := sv2], calls := calls st @ [svid]\<rparr>)
            else st)
         in st1\<lparr>seqStore := (seqStore st1)[svid := []],
                svDone := (svDone st1)[svid := True]\<rparr>)
      else st)"

definition completeAll :: "Helpers \<Rightarrow> nat \<Rightarrow> asm_state \<Rightarrow> asm_state" where
  "completeAll h refIndex st = fold (completeSV h refIndex) [0..<length (seqStore st)] st"

text \<open>
  The two nested loops over the files and over the valid-region intervals of the
  reference do nothing but stream the reads of each interval and then run the
  completion loop, so the pass over one reference is a sequence of events.
\<close>

datatype event = Read BamRec | EndOfInterval

definition eventsOf :: "BamRec list list list \<Rightarrow> event list" where
  "eventsOf files =
     concat (map (\<lambda>intervals.
       concat (map (\<lambda>reads. map Read reads @ [EndOfInterval]) intervals)) files)"

definition asmStep ::
  "Helpers \<Rightarrow> Config \<Rightarrow> nat \<Rightarrow> nat \<Rightarrow> TPosReadSV \<Rightarrow> event \<Rightarrow> asm_state \<Rightarrow> error + asm_state" where
  "asmStep h c refIndex tlen sr ev st =
     (case ev of
        Read rec \<Rightarrow> gatherRead h c refIndex tlen sr rec st
      | EndOfInterval \<Rightarrow> Inr (completeAll h refIndex st))"

fun asmRun ::
  "Helpers \<Rightarrow> Config \<Rightarrow> nat \<Rightarrow> nat \<Rightarrow> TPosReadSV \<Rightarrow> event list \<Rightarrow> asm_state \<Rightarrow> error + asm_state" where
  "asmRun h c refIndex tlen sr [] st = Inr st"
| "asmRun h c refIndex tlen sr (ev # evs) st =
     (case asmStep h c refIndex tlen sr ev st of
        Inl e \<Rightarrow> Inl e
      | Inr st' \<Rightarrow> asmRun h c refIndex tlen sr evs st')"

text \<open>
  The body of the loop over the references (lines 101 to 184) for a reference that is
  not skipped: the bitset is filled from the keys of \<open>srStore[refIndex]\<close>, the sequence
  store and the done flags start empty, and only the SV records (and the trace)
  survive.
\<close>

definition assembleChr ::
  "Helpers \<Rightarrow> Config \<Rightarrow> nat \<Rightarrow> nat \<Rightarrow> TPosReadSV \<Rightarrow> BamRec list list list \<Rightarrow>
   StructuralVariantRecord list \<times> nat list \<Rightarrow> error + StructuralVariantRecord list \<times> nat list" where
  "assembleChr h c refIndex tlen sr files acc =
     (if \<exists>p \<in> set (map (fst \<circ> fst) sr). \<not> (0 \<le> p \<and> p < int tlen) then Inl OutOfRange
      else
        (case asmRun h c refIndex tlen sr (eventsOf files) (initState (fst acc) (snd acc)) of
           Inl e \<Rightarrow> Inl e
         | Inr st \<Rightarrow> Inr (svs st, calls st)))"

text \<open>
  The loop over the references. \<open>validRegions\<close> lists the intervals of each reference,
  \<open>target_len\<close> its length, and \<open>reads refIndex\<close> the reads the region queries return
  for it, per file and per interval.
\<close>

fun assembleRefs ::
  "Helpers \<Rightarrow> Config \<Rightarrow> (int \<times> int) list list \<Rightarrow> TSRStore \<Rightarrow> (nat \<Rightarrow> nat) \<Rightarrow>
   (nat \<Rightarrow> BamRec list list list) \<Rightarrow> nat list \<Rightarrow>
   StructuralVariantRecord list \<times> nat list \<Rightarrow> error + StructuralVariantRecord list \<times> nat list" where
  "assembleRefs h c validRegions srStore target_len reads [] acc = Inr acc"
| "assembleRefs h c validRegions srStore target_len reads (refIndex # rest) acc =
     (if \<not> refIndex < length validRegions then Inl OutOfRange
      else if validRegions ! refIndex = [] then
        assembleRefs h c validRegions srStore target_len reads rest acc
      else if \<not> refIndex < length srStore then Inl OutOfRange
      else if srStore ! refIndex = [] then
        assembleRefs h c validRegions srStore target_len reads rest acc
      else
        (case assembleChr h c refIndex (target_len refIndex) (srStore ! refIndex)
                (reads refIndex) acc of
           Inl e \<Rightarrow> Inl e
         | Inr acc' \<Rightarrow> assembleRefs h c validRegions srStore target_len reads rest acc'))"

definition assembleSplitReads ::
  "Helpers \<Rightarrow> Config \<Rightarrow> (int \<times> int) list list \<Rightarrow> TSRStore \<Rightarrow> nat \<Rightarrow> (nat \<Rightarrow> nat) \<Rightarrow>
   (nat \<Rightarrow> BamRec list list list) \<Rightarrow> StructuralVariantRecord list \<Rightarrow>
   error + StructuralVariantRecord list \<times> nat list" where
  "assembleSplitReads h c validRegions srStore n_targets target_len reads svs0 =
     assembleRefs h c validRegions srStore target_len reads [0..<n_targets] (svs0, [])"

text \<open>
  The states a pass over one reference can be in: the initial state, the state after a
  read, and the state after one iteration of the completion loop.
\<close>

inductive reachable :: "Helpers \<Rightarrow> Config \<Rightarrow> asm_state \<Rightarrow> bool" for h c where
  reach_init: "reachable h c (initState svs0 calls0)"
| reach_read: "reachable h c st \<Longrightarrow> gatherRead h c refIndex tlen sr rec st = Inr st' \<Longrightarrow>
     reachable h c st'"
| reach_complete: "reachable h c st \<Longrightarrow> svid < length (seqStore st) \<Longrightarrow>
     reachable h c (completeSV h refIndex svid st)"

text \<open>
  Three invariants of these states: the three vectors have one entry per SV record; no
  sequence store holds more than \<open>maxReadPerSV\<close> sequences; the store of an SV that is
  done is empty.
\<close>

definition asm_wf :: "asm_state \<Rightarrow> bool" where
  "asm_wf st =
     (length (seqStore st) = length (svs st) \<and> length (svDone st) = length (svs st))"

definition capped :: "asm_state \<Rightarrow> bool" where
  "capped st = (\<forall>i < length (seqStore st). length (seqStore st ! i) \<le> maxReadPerSV)"


section \<open>Example inputs\<close>

text \<open>
  Concrete configurations and reads on which the theorems below are evaluated. The
  thresholds of \<open>cfg25\<close> are 25 bases for both the internal gap and the clip.
\<close>

definition cfg25 :: Config where
  "cfg25 = \<lparr>minMapQual = 20, minTraQual = 20, minRefSep = 25, minClip = 25,
            svtcmd = False, svtset = {}\<rparr>"

definition read_del :: "u32 \<Rightarrow> BamRec" where
  "read_del l = \<lparr>flag = 0, qual = 60, tid = 0, pos = 100, mtid = 0, mpos = 400,
      isize = 0, qname = ''r1'',
      cigar = [bam_cigar_gen 50 BAM_CMATCH, bam_cigar_gen l BAM_CDEL,
               bam_cigar_gen 50 BAM_CMATCH],
      seqi = []\<rparr>"

definition read_clip :: "u32 \<Rightarrow> BamRec" where
  "read_clip l = \<lparr>flag = 0, qual = 60, tid = 0, pos = 100, mtid = 0, mpos = 400,
      isize = 0, qname = ''r2'',
      cigar = [bam_cigar_gen l BAM_CSOFT_CLIP, bam_cigar_gen 70 BAM_CMATCH,
               bam_cigar_gen l BAM_CHARD_CLIP],
      seqi = []\<rparr>"

text \<open>
  Stand-ins for the collaborators, used only to evaluate the model on concrete inputs:
  a read-name hash that adds the character codes, a classifier that calls a
  same-chromosome pair a deletion candidate once its insert size reaches the bound, an
  orientation adjustment that reverses, an MSA that returns the first sequence, and a
  consensus aligner that fails on a consensus shorter than six bases.
\<close>

definition exampleHelpers :: Helpers where
  "exampleHelpers =
     \<lparr>DELLY_SVT_TRANS = 5,
      hash_string = (\<lambda>s. sum_list (map of_char s)),
      hash_pair = (\<lambda>r. sum_list (map of_char (qname r))),
      hash_pair_mate = (\<lambda>r. sum_list (map of_char (qname r))),
      alignmentLength = (\<lambda>r. int (length (seqi r))),
      isizeMappingPos = (\<lambda>r m. if tid r \<noteq> mtid r then 5
                                 else if pos r = mpos r \<or> \<bar>isize r\<bar> < m then - 1 else 2),
      firstPairObs = (\<lambda>r s. if tid r = mtid r
                              then pos r < mpos r \<or>
                                   (pos r = mpos r \<and> sum_list (map of_char (qname r)) \<notin> s)
                              else tid r < mtid r),
      translocationRec = (\<lambda>r. tid r \<noteq> mtid r),
      translocationSvt = (\<lambda>t. 5 \<le> t),
      adjustOrientation = (\<lambda>s b t. if b then rev s else s),
      msa = (\<lambda>seqs old. if seqs = [] then [] else hd seqs),
      alignConsensus = (\<lambda>r sv. if length (consensus sv) < 6 then (False, sv)
                                 else (True, sv\<lparr>precise := True, srAlignQuality := 1\<rparr>))\<rparr>"

text \<open>
  A deletion and a translocation record with SR support \<open>n\<close>, a split read \<open>r1\<close> at
  position 100 (the hash of its name is 163) with the bases ACGT, and a back-index that
  maps both breakpoints of the read to SV 0.
\<close>

definition sv_del :: "int \<Rightarrow> StructuralVariantRecord" where
  "sv_del n = \<lparr>id_sv = 0, svt = 2, chr = 0, svStart = 100, chr2 = 0, svEnd = 200,
     peSupport = 0, srSupport = n, precise = True, consensus = [], srAlignQuality = 0\<rparr>"


definition read_sr :: BamRec where
  "read_sr = \<lparr>flag = 0, qual = 60, tid = 0, pos = 100, mtid = 0, mpos = 400,
      isize = 0, qname = ''r1'', cigar = [], seqi = [1, 2, 4, 8]\<rparr>"

definition store_del :: TPosReadSV where
  "store_del = [((100, 163), 0), ((200, 163), 0)]"

definition state20 :: asm_state where
  "state20 = \<lparr>svs = [sv_del 30], seqStore = [replicate 20 ''ACGT''],
              svDone = [False], calls = []\<rparr>"

definition state2 :: "StructuralVariantRecord \<Rightarrow> asm_state" where
  "state2 sv = \<lparr>svs = [sv], seqStore = [[''ACGT'', ''ACGT'']], svDone = [False], calls = []\<rparr>"


text \<open>
  A library with \<open>maxISizeCutoff = 500\<close> and a given median; a pair of mates named
  \<open>p1\<close> (the hash of the name is 161) of mapping quality \<open>q\<close> and insert size \<open>l\<close>, the
  first at position 100; a paired read \<open>p2\<close> (hash 162) with a leading soft clip of 30
  bases; one reference with one valid region; and the evidence record the pair yields.
\<close>

definition lib500 :: "int \<Rightarrow> LibraryInfo" where
  "lib500 m = \<lparr>median = m, mad = 20, maxNormalISize = 400, maxISizeCutoff = 500, rs = 100\<rparr>"

definition pe_first :: "u8 \<Rightarrow> int \<Rightarrow> BamRec" where
  "pe_first q l = \<lparr>flag = 97, qual = q, tid = 0, pos = 100, mtid = 0, mpos = 100 + l - 50,
      isize = l, qname = ''p1'', cigar = [bam_cigar_gen 50 BAM_CMATCH], seqi = []\<rparr>"

definition pe_second :: "u8 \<Rightarrow> int \<Rightarrow> BamRec" where
  "pe_second q l = \<lparr>flag = 145, qual = q, tid = 0, pos = 100 + l - 50, mtid = 0, mpos = 100,
      isize = - l, qname = ''p1'', cigar = [bam_cigar_gen 50 BAM_CMATCH], seqi = []\<rparr>"

definition pe_clip :: BamRec where
  "pe_clip = \<lparr>flag = 97, qual = 60, tid = 0, pos = 100, mtid = 0, mpos = 650,
      isize = 600, qname = ''p2'',
      cigar = [bam_cigar_gen 30 BAM_CSOFT_CLIP, bam_cigar_gen 70 BAM_CMATCH], seqi = []\<rparr>"

definition oneRegion :: "(int \<times> int) list list" where
  "oneRegion = [[(0, 100000)]]"

definition pairRefs :: "u8 \<Rightarrow> int \<Rightarrow> (nat \<times> BamRec list list) list" where
  "pairRefs q l = [(2, [[pe_first q l, pe_second q l]])]"

definition pairEvidence :: "u8 \<Rightarrow> int \<Rightarrow> int \<Rightarrow> BamAlignRecord" where
  "pairEvidence q l m = \<lparr>fromRec = pe_second q l, pairQuality = q, alen = 0, malen = 0,
      libMedian = m, libMad = 20, libMaxNormalISize = 400\<rparr>"

text \<open>
  A classifier that looks at the orientation only and leaves the insert size to the
  scanner's own gate.
\<close>

definition orientationOnly :: Helpers where
  "orientationOnly =
     exampleHelpers\<lparr>isizeMappingPos := (\<lambda>r m. if tid r \<noteq> mtid r then 5 else 2)\<rparr>"

text \<open>
  Three split-read records of one read: two assigned to different SVs that share the
  breakpoint at position 150, and one that no cluster absorbed.
\<close>

definition recA :: SRBamRecord where
  "recA = \<lparr>chr_sr = 0, pos_sr = 150, chr2_sr = 0, pos2_sr = 180, id_sr = 7, svid_sr = 0\<rparr>"

definition recB :: SRBamRecord where
  "recB = \<lparr>chr_sr = 0, pos_sr = 150, chr2_sr = 0, pos2_sr = 230, id_sr = 7, svid_sr = 1\<rparr>"

definition recU :: SRBamRecord where
  "recU = \<lparr>chr_sr = 0, pos_sr = 400, chr2_sr = 0, pos2_sr = 500, id_sr = 9, svid_sr = - 1\<rparr>"

section \<open>Junction extraction: properties\<close>

lemmas cigar_codes =
  BAM_CMATCH_def BAM_CINS_def BAM_CDEL_def BAM_CREF_SKIP_def BAM_CSOFT_CLIP_def
  BAM_CHARD_CLIP_def BAM_CEQUAL_def BAM_CDIFF_def

lemmas cigar_eval =
  parseCigar_def cigarOp_def bam_cigar_op_def bam_cigar_oplen_def bam_cigar_gen_def
  cigar_codes junctionsOf_def insertJunction_def BAM_FREVERSE_def


lemma junctionsOf_insertJunction:
  "junctionsOf (insertJunction bp seed rec rp sp scl) seed =
     junctionsOf bp seed @
       [\<lparr>forward = (flag rec AND BAM_FREVERSE = 0), scleft = scl,
         refidx = tid rec, refpos = rp, seqpos = sp\<rparr>]"
  by (simp add: insertJunction_def junctionsOf_def)

text \<open>
  C2, as the claim states it, fails: with \<open>minRefSep = 25\<close> a read aligned as
  50M 25D 50M (a deletion of exactly \<open>minRefSep\<close> bases) leaves the junction list of
  its seed empty, because the test of lines 288 and 290 is \<open>oplen > minRefSep\<close>.
\<close>

theorem deletion_of_minRefSep_emits_nothing:
  "minRefSep cfg25 = 25 \<and>
   bam_cigar_op (cigar (read_del 25) ! 1) = BAM_CDEL \<and>
   unat (bam_cigar_oplen (cigar (read_del 25) ! 1)) = 25 \<and>
   junctionsOf (parseCigar cfg25 7 (read_del 25) Map.empty) 7 = []"
  by (simp add: cigar_eval read_del_def cfg25_def)

text \<open>
  C2, amended: a deletion-from-reference operation whose length is greater than
  \<open>minRefSep\<close> (so \<open>minRefSep + 1\<close> is the shortest) emits two junctions for the read's
  seed, the first at the reference pointer before the gap with \<open>scleft = false\<close>, the
  second at the reference pointer after the gap with \<open>scleft = true\<close>, both at the
  unchanged sequence pointer; a deletion of length \<open>minRefSep\<close> or less emits no
  junction. In both cases the reference pointer advances by the length of the gap.
\<close>

theorem deletion_junctions:
  assumes "bam_cigar_op x = BAM_CDEL"
    and "cigarOp c seed rec x (rp, sp, bp) = (rp', sp', bp')"
  shows "rp' = rp + bam_cigar_oplen x \<and> sp' = sp \<and>
    (minRefSep c < unat (bam_cigar_oplen x) \<longrightarrow>
       bp' = insertJunction (insertJunction bp seed rec rp sp False) seed rec
                   (rp + bam_cigar_oplen x) sp True \<and>
       junctionsOf bp' seed = junctionsOf bp seed @
         [\<lparr>forward = (flag rec AND BAM_FREVERSE = 0), scleft = False,
            refidx = tid rec, refpos = rp, seqpos = sp\<rparr>,
          \<lparr>forward = (flag rec AND BAM_FREVERSE = 0), scleft = True,
            refidx = tid rec, refpos = rp + bam_cigar_oplen x, seqpos = sp\<rparr>]) \<and>
    (unat (bam_cigar_oplen x) \<le> minRefSep c \<longrightarrow> bp' = bp)"
proof -
  have not_match: "bam_cigar_op x \<noteq> BAM_CMATCH" "bam_cigar_op x \<noteq> BAM_CEQUAL"
    "bam_cigar_op x \<noteq> BAM_CDIFF"
    using assms(1) by (simp_all add: cigar_codes)
  show ?thesis
    using assms not_match
    by (auto simp add: cigarOp_def Let_def junctionsOf_insertJunction)
qed

theorem deletion_junctions_witness:
  "junctionsOf (snd (snd (cigarOp cfg25 7 (read_del 26) (bam_cigar_gen 26 BAM_CDEL)
       (150, 50, Map.empty)))) 7 =
     [\<lparr>forward = True, scleft = False, refidx = 0, refpos = 150, seqpos = 50\<rparr>,
      \<lparr>forward = True, scleft = True, refidx = 0, refpos = 176, seqpos = 50\<rparr>] \<and>
   snd (snd (cigarOp cfg25 7 (read_del 25) (bam_cigar_gen 25 BAM_CDEL)
       (150, 50, Map.empty))) = Map.empty"
proof -
  obtain rp' sp' bp' where a:
    "cigarOp cfg25 7 (read_del 26) (bam_cigar_gen 26 BAM_CDEL) (150, 50, Map.empty) =
       (rp', sp', bp')"
    by (cases "cigarOp cfg25 7 (read_del 26) (bam_cigar_gen 26 BAM_CDEL)
                 (150, 50, Map.empty)") auto
  obtain rq sq bq where b:
    "cigarOp cfg25 7 (read_del 25) (bam_cigar_gen 25 BAM_CDEL) (150, 50, Map.empty) =
       (rq, sq, bq)"
    by (cases "cigarOp cfg25 7 (read_del 25) (bam_cigar_gen 25 BAM_CDEL)
                 (150, 50, Map.empty)") auto
  have op26: "bam_cigar_op (bam_cigar_gen 26 BAM_CDEL) = BAM_CDEL"
    and op25: "bam_cigar_op (bam_cigar_gen 25 BAM_CDEL) = BAM_CDEL"
    by (simp_all add: bam_cigar_op_def bam_cigar_gen_def cigar_codes)
  have l26: "unat (bam_cigar_oplen (bam_cigar_gen 26 BAM_CDEL)) = 26"
    and l25: "unat (bam_cigar_oplen (bam_cigar_gen 25 BAM_CDEL)) = 25"
    by (simp_all add: bam_cigar_oplen_def bam_cigar_gen_def cigar_codes)
  have w26: "bam_cigar_oplen (bam_cigar_gen 26 BAM_CDEL) = 26"
    by (simp add: bam_cigar_oplen_def bam_cigar_gen_def cigar_codes)
  from deletion_junctions [OF op26 a] deletion_junctions [OF op25 b] a b l26 l25 w26
  show ?thesis
    by (simp add: cfg25_def read_del_def junctionsOf_def insertJunction_def
        BAM_FREVERSE_def)
qed

text \<open>
  C3, as the claim states it, fails: with \<open>minClip = 25\<close> a read aligned as
  25S 70M 25H (a leading soft clip and a trailing hard clip of exactly \<open>minClip\<close>
  bases) leaves the junction list of its seed empty, because the test of line 301 is
  \<open>oplen > minClip\<close>.
\<close>

theorem clip_of_minClip_emits_nothing:
  "minClip cfg25 = 25 \<and>
   bam_cigar_op (cigar (read_clip 25) ! 0) = BAM_CSOFT_CLIP \<and>
   unat (bam_cigar_oplen (cigar (read_clip 25) ! 0)) = 25 \<and>
   bam_cigar_op (cigar (read_clip 25) ! 2) = BAM_CHARD_CLIP \<and>
   unat (bam_cigar_oplen (cigar (read_clip 25) ! 2)) = 25 \<and>
   junctionsOf (parseCigar cfg25 7 (read_clip 25) Map.empty) 7 = []"
  by (simp add: cigar_eval read_clip_def cfg25_def)

text \<open>
  C3, amended: a soft-clip or hard-clip operation whose length is greater than
  \<open>minClip\<close> (so \<open>minClip + 1\<close> is the shortest) emits exactly one junction for the
  read's seed, at the current reference pointer; when the clip is leading (the sequence
  pointer is still zero) the recorded sequence offset is the pointer advanced past the
  clip and \<open>scleft = true\<close>, otherwise the offset is the sequence pointer before the
  clip and \<open>scleft = false\<close>. A clip of length \<open>minClip\<close> or less emits no junction. In
  both cases the sequence pointer advances by the length of the clip.
\<close>

theorem clip_junction:
  assumes "bam_cigar_op x = BAM_CSOFT_CLIP \<or> bam_cigar_op x = BAM_CHARD_CLIP"
    and "cigarOp c seed rec x (rp, sp, bp) = (rp', sp', bp')"
  shows "rp' = rp \<and> sp' = sp + bam_cigar_oplen x \<and>
    (minClip c < unat (bam_cigar_oplen x) \<longrightarrow>
       bp' = insertJunction bp seed rec rp
                   (if sp = 0 then sp + bam_cigar_oplen x else sp) (sp = 0) \<and>
       junctionsOf bp' seed = junctionsOf bp seed @
         [\<lparr>forward = (flag rec AND BAM_FREVERSE = 0), scleft = (sp = 0),
            refidx = tid rec, refpos = rp,
            seqpos = (if sp = 0 then bam_cigar_oplen x else sp)\<rparr>]) \<and>
    (unat (bam_cigar_oplen x) \<le> minClip c \<longrightarrow> bp' = bp)"
proof -
  have not_other: "bam_cigar_op x \<noteq> BAM_CMATCH" "bam_cigar_op x \<noteq> BAM_CEQUAL"
    "bam_cigar_op x \<noteq> BAM_CDIFF" "bam_cigar_op x \<noteq> BAM_CDEL"
    "bam_cigar_op x \<noteq> BAM_CINS"
    using assms(1) by (auto simp add: cigar_codes)
  show ?thesis
    using assms not_other
    by (auto simp add: cigarOp_def Let_def junctionsOf_insertJunction)
qed

theorem clip_junction_witness:
  "junctionsOf (parseCigar cfg25 7 (read_clip 26) Map.empty) 7 =
     [\<lparr>forward = True, scleft = True, refidx = 0, refpos = 100, seqpos = 26\<rparr>,
      \<lparr>forward = True, scleft = False, refidx = 0, refpos = 170, seqpos = 96\<rparr>] \<and>
   snd (snd (cigarOp cfg25 7 (read_clip 25) (bam_cigar_gen 25 BAM_CSOFT_CLIP)
       (100, 0, Map.empty))) = Map.empty"
proof -
  let ?s = "bam_cigar_gen 26 BAM_CSOFT_CLIP"
  let ?h = "bam_cigar_gen 26 BAM_CHARD_CLIP"
  let ?m = "bam_cigar_gen 70 BAM_CMATCH"
  let ?e = "bam_cigar_gen 25 BAM_CSOFT_CLIP"
  obtain bp1 where s1: "cigarOp cfg25 7 (read_clip 26) ?s (100, 0, Map.empty) = (100, 26, bp1)"
    by (simp add: cigar_eval cfg25_def)
  have s2: "cigarOp cfg25 7 (read_clip 26) ?m (100, 26, bp1) = (170, 96, bp1)"
    by (simp add: cigarOp_def bam_cigar_op_def bam_cigar_oplen_def bam_cigar_gen_def
        cigar_codes)
  obtain rp3 sp3 bp3 where s3:
    "cigarOp cfg25 7 (read_clip 26) ?h (170, 96, bp1) = (rp3, sp3, bp3)"
    by (cases "cigarOp cfg25 7 (read_clip 26) ?h (170, 96, bp1)") auto
  obtain rq sq bq where s4:
    "cigarOp cfg25 7 (read_clip 25) ?e (100, 0, Map.empty) = (rq, sq, bq)"
    by (cases "cigarOp cfg25 7 (read_clip 25) ?e (100, 0, Map.empty)") auto
  have ops: "bam_cigar_op ?s = BAM_CSOFT_CLIP" "bam_cigar_op ?h = BAM_CHARD_CLIP"
    "bam_cigar_op ?e = BAM_CSOFT_CLIP"
    by (simp_all add: bam_cigar_op_def bam_cigar_gen_def cigar_codes)
  have lens: "bam_cigar_oplen ?s = 26" "bam_cigar_oplen ?h = 26" "bam_cigar_oplen ?e = 25"
    by (simp_all add: bam_cigar_oplen_def bam_cigar_gen_def cigar_codes)
  have run: "parseCigar cfg25 7 (read_clip 26) Map.empty = bp3"
    by (simp add: parseCigar_def read_clip_def s1 [unfolded read_clip_def]
        s2 [unfolded read_clip_def] s3 [unfolded read_clip_def])
  from clip_junction [OF disjI1 [OF ops(1)] s1] clip_junction [OF disjI2 [OF ops(2)] s3]
    clip_junction [OF disjI1 [OF ops(3)] s4] s4 lens run
  show ?thesis
    by (simp add: cfg25_def read_clip_def junctionsOf_def insertJunction_def
        BAM_FREVERSE_def)
qed

section \<open>Split-read assembly: properties\<close>

lemma gatherRead_cases:
  assumes "gatherRead h c refIndex tlen sr rec st = Inr st'"
  shows "st' = st \<or>
    (\<exists>svid. svid < length (svs st) \<and> \<not> svDone st ! svid \<and>
       length (seqStore st ! svid) < maxReadPerSV \<and>
       map_of sr (pos rec, hash_string h (qname rec)) = Some (int svid) \<and>
       id_sv (svs st ! svid) = int svid \<and>
       st' = st\<lparr>seqStore := (seqStore st)[svid := seqStore st ! svid @
                [orientedSequence h refIndex rec (svs st ! svid)]]\<rparr>)"
proof (cases "st' = st")
  case True
  then show ?thesis by simp
next
  case False
  with assms obtain x where x:
    "map_of sr (pos rec, hash_string h (qname rec)) = Some x" "0 \<le> x"
    "nat x < length (svs st)" "x = id_sv (svs st ! nat x)" "\<not> svDone st ! nat x"
    "length (seqStore st ! nat x) < maxReadPerSV"
    "st' = st\<lparr>seqStore := (seqStore st)[nat x := seqStore st ! nat x @
                [orientedSequence h refIndex rec (svs st ! nat x)]]\<rparr>"
    by (auto simp add: gatherRead_def Let_def split: if_splits option.splits)
  have "int (nat x) = x" using x(2) by simp
  with x show ?thesis
    by (intro disjI2 exI [of _ "nat x"]) simp
qed

lemma length_seqStore_completeSV [simp]:
  "length (seqStore (completeSV h r svid st)) = length (seqStore st)"
  by (simp add: completeSV_def Let_def)

lemma length_svs_completeSV [simp]:
  "length (svs (completeSV h r svid st)) = length (svs st)"
  by (simp add: completeSV_def Let_def)

lemma length_svDone_completeSV [simp]:
  "length (svDone (completeSV h r svid st)) = length (svDone st)"
  by (simp add: completeSV_def Let_def)

lemma reachable_wf: "reachable h c st \<Longrightarrow> asm_wf st"
proof (induction rule: reachable.induct)
  case (reach_init svs0 calls0)
  show ?case by (simp add: asm_wf_def initState_def)
next
  case (reach_read st refIndex tlen sr rec st')
  from gatherRead_cases [OF reach_read.hyps(2)] reach_read.IH show ?case
    by (auto simp add: asm_wf_def)
next
  case (reach_complete st svid refIndex)
  then show ?case by (simp add: asm_wf_def)
qed

lemma reachable_capped: "reachable h c st \<Longrightarrow> capped st"
proof (induction rule: reachable.induct)
  case (reach_init svs0 calls0)
  show ?case by (simp add: capped_def initState_def)
next
  case (reach_read st refIndex tlen sr rec st')
  from gatherRead_cases [OF reach_read.hyps(2)] reach_read.IH
    reachable_wf [OF reach_read.hyps(1)]
  show ?case
    by (auto simp add: capped_def asm_wf_def nth_list_update)
next
  case (reach_complete st svid refIndex)
  from reachable_wf [OF reach_complete.hyps(1)] reach_complete.IH reach_complete.hyps(2)
  show ?case
    by (auto simp add: capped_def asm_wf_def completeSV_def Let_def nth_list_update)
qed


lemma reachable_fold_completeSV:
  "reachable h c st \<Longrightarrow> \<forall>i \<in> set is. i < length (seqStore st) \<Longrightarrow>
   reachable h c (fold (completeSV h r) is st)"
proof (induction "is" arbitrary: st)
  case Nil
  then show ?case by simp
next
  case (Cons i "is")
  have "reachable h c (completeSV h r i st)"
    using Cons.prems by (auto intro: reach_complete)
  moreover have "\<forall>j \<in> set is. j < length (seqStore (completeSV h r i st))"
    using Cons.prems by simp
  ultimately show ?case using Cons.IH by simp
qed

lemma reachable_completeAll: "reachable h c st \<Longrightarrow> reachable h c (completeAll h r st)"
  unfolding completeAll_def by (rule reachable_fold_completeSV) auto

lemma reachable_asmRun:
  "reachable h c st \<Longrightarrow> asmRun h c r tlen sr evs st = Inr st' \<Longrightarrow> reachable h c st'"
proof (induction evs arbitrary: st)
  case Nil
  then show ?case by simp
next
  case (Cons ev evs)
  then show ?case
    by (auto simp add: asmStep_def split: sum.splits event.splits
        intro: reach_read reachable_completeAll)
qed

lemma assembleChr_reachable:
  assumes "assembleChr h c r tlen sr files (svs0, calls0) = Inr (svs1, calls1)"
  shows "\<exists>st. reachable h c st \<and> svs st = svs1 \<and> calls st = calls1"
proof -
  from assms obtain st where
    st: "asmRun h c r tlen sr (eventsOf files) (initState svs0 calls0) = Inr st"
    and res: "svs st = svs1" "calls st = calls1"
    by (auto simp add: assembleChr_def split: if_splits sum.splits)
  from reachable_asmRun [OF reach_init st] res show ?thesis by blast
qed


text \<open>
  C5: in every state of a pass over a reference, no SV's sequence store holds more than
  \<open>maxReadPerSV = 20\<close> sequences; and a read either leaves the state as it is or appends
  its oriented sequence to the store of one SV that is not done and whose store holds
  fewer than 20 sequences.
\<close>

theorem maxReadPerSV_cap:
  assumes "reachable h c st"
  shows "maxReadPerSV = 20 \<and>
    (\<forall>i < length (seqStore st). length (seqStore st ! i) \<le> maxReadPerSV) \<and>
    (\<forall>refIndex tlen sr rec st'. gatherRead h c refIndex tlen sr rec st = Inr st' \<longrightarrow>
       st' = st \<or>
       (\<exists>svid < length (seqStore st). \<not> svDone st ! svid \<and>
          length (seqStore st ! svid) < maxReadPerSV \<and>
          st' = st\<lparr>seqStore := (seqStore st)[svid := seqStore st ! svid @
                   [orientedSequence h refIndex rec (svs st ! svid)]]\<rparr>))"
proof (intro conjI allI impI)
  show "maxReadPerSV = 20" by (simp add: maxReadPerSV_def)
next
  fix i assume "i < length (seqStore st)"
  with reachable_capped [OF assms] show "length (seqStore st ! i) \<le> maxReadPerSV"
    by (simp add: capped_def)
next
  fix refIndex tlen sr rec st'
  assume "gatherRead h c refIndex tlen sr rec st = Inr st'"
  from gatherRead_cases [OF this] reachable_wf [OF assms]
  show "st' = st \<or>
       (\<exists>svid < length (seqStore st). \<not> svDone st ! svid \<and>
          length (seqStore st ! svid) < maxReadPerSV \<and>
          st' = st\<lparr>seqStore := (seqStore st)[svid := seqStore st ! svid @
                   [orientedSequence h refIndex rec (svs st ! svid)]]\<rparr>)"
    by (auto simp add: asm_wf_def)
qed

theorem maxReadPerSV_cap_witness:
  "asmRun exampleHelpers cfg25 0 1000 store_del (replicate 20 (Read read_sr))
     (initState [sv_del 30] []) = Inr state20 \<and>
   length (seqStore state20 ! 0) = 20 \<and>
   gatherRead exampleHelpers cfg25 0 1000 store_del read_sr state20 = Inr state20"
proof -
  have run: "asmRun exampleHelpers cfg25 0 1000 store_del (replicate 20 (Read read_sr))
     (initState [sv_del 30] []) = Inr state20"
    by code_simp
  have reach: "reachable exampleHelpers cfg25 state20"
    by (rule reachable_asmRun [OF reach_init run])
  have g: "gatherRead exampleHelpers cfg25 0 1000 store_del read_sr state20 = Inr state20"
    by code_simp
  from maxReadPerSV_cap [OF reach] run g show ?thesis
    by (simp add: state20_def)
qed

text \<open>
  C6: when an SV that is not done is complete, is not a translocation and has more
  than one gathered sequence, and \<open>alignConsensus\<close> fails on the record that carries
  the MSA consensus, the completion step stores the record as \<open>alignConsensus\<close> left
  it with the consensus cleared to the empty string and \<open>srSupport\<close> set to zero, and
  with every other field as it was (so, when a failing \<open>alignConsensus\<close> leaves the
  record alone, as the record was before the step). The other SV records are not
  touched, the SV's store is cleared and the SV is marked done, and the pass goes on:
  the completion loop returns and the run continues with the events that follow.
\<close>

theorem alignment_failure_clears:
  assumes "svid < length (svs st)"
    and "\<not> svDone st ! svid" and "svComplete st svid"
    and "\<not> translocationSvt h (svt (svs st ! svid))"
    and "1 < length (seqStore st ! svid)"
    and "sv1 = (svs st ! svid)
           \<lparr>consensus := msa h (seqStore st ! svid) (consensus (svs st ! svid))\<rparr>"
    and "alignConsensus h refIndex sv1 = (False, sv')"
  shows "svs (completeSV h refIndex svid st) =
           (svs st)[svid := sv'\<lparr>consensus := [], srSupport := 0\<rparr>] \<and>
         consensus (svs (completeSV h refIndex svid st) ! svid) = [] \<and>
         srSupport (svs (completeSV h refIndex svid st) ! svid) = 0 \<and>
         (sv' = sv1 \<longrightarrow> svs (completeSV h refIndex svid st) ! svid =
            (svs st ! svid)\<lparr>consensus := [], srSupport := 0\<rparr>) \<and>
         seqStore (completeSV h refIndex svid st) = (seqStore st)[svid := []] \<and>
         svDone (completeSV h refIndex svid st) = (svDone st)[svid := True] \<and>
         asmRun h c refIndex tlen sr (EndOfInterval # evs) st =
           asmRun h c refIndex tlen sr evs (completeAll h refIndex st)"
  using assms by (simp add: completeSV_def Let_def asmStep_def)

theorem alignment_failure_clears_witness:
  "svs (completeSV exampleHelpers 0 0 (state2 (sv_del 2))) =
     [(sv_del 2)\<lparr>consensus := [], srSupport := 0\<rparr>] \<and>
   svDone (completeSV exampleHelpers 0 0 (state2 (sv_del 2))) = [True] \<and>
   asmRun exampleHelpers cfg25 0 1000 store_del [EndOfInterval, Read read_sr]
     (state2 (sv_del 2)) =
     Inr \<lparr>svs = [(sv_del 2)\<lparr>consensus := [], srSupport := 0\<rparr>], seqStore = [[]],
          svDone = [True], calls = [0]\<rparr> \<and>
   assembleSplitReads exampleHelpers cfg25 oneRegion [store_del] 1 (\<lambda>r. 1000)
     (\<lambda>r. [[[read_sr, read_sr], [read_sr]]]) [sv_del 2] =
     Inr ([(sv_del 2)\<lparr>consensus := [], srSupport := 0\<rparr>], [0])"
proof -
  let ?sv1 = "(sv_del 2)\<lparr>consensus := ''ACGT''\<rparr>"
  have pass: "assembleSplitReads exampleHelpers cfg25 oneRegion [store_del] 1 (\<lambda>r. 1000)
     (\<lambda>r. [[[read_sr, read_sr], [read_sr]]]) [sv_del 2] =
     Inr ([(sv_del 2)\<lparr>consensus := [], srSupport := 0\<rparr>], [0])"
    by code_simp
  have a: "(0::nat) < length (svs (state2 (sv_del 2)))"
    and b: "\<not> svDone (state2 (sv_del 2)) ! 0"
    and d: "svComplete (state2 (sv_del 2)) 0"
    and e: "\<not> translocationSvt exampleHelpers (svt (svs (state2 (sv_del 2)) ! 0))"
    and f: "1 < length (seqStore (state2 (sv_del 2)) ! 0)"
    and g: "?sv1 = (svs (state2 (sv_del 2)) ! 0)
              \<lparr>consensus := msa exampleHelpers (seqStore (state2 (sv_del 2)) ! 0)
                 (consensus (svs (state2 (sv_del 2)) ! 0))\<rparr>"
    and i: "alignConsensus exampleHelpers 0 ?sv1 = (False, ?sv1)"
    by (simp_all add: state2_def sv_del_def svComplete_def exampleHelpers_def)
  have run: "asmRun exampleHelpers cfg25 0 1000 store_del [Read read_sr]
               (completeAll exampleHelpers 0 (state2 (sv_del 2))) =
             Inr \<lparr>svs = [(sv_del 2)\<lparr>consensus := [], srSupport := 0\<rparr>], seqStore = [[]],
                  svDone = [True], calls = [0]\<rparr>"
    by code_simp
  from alignment_failure_clears [OF a b d e f g i, of cfg25 1000 store_del "[Read read_sr]"]
    run pass
  show ?thesis
    by (simp add: state2_def sv_del_def)
qed











section \<open>Paired-end scanning: properties\<close>

lemma mapOK_empty: "mapOK h c recs Map.empty"
  by (simp add: mapOK_def)

lemma mapOK_store:
  assumes "mapOK h c recs m" "rec \<in> set recs" "minMapQual c \<le> unat (qual rec)"
  shows "mapOK h c recs (m(hash_pair h rec \<mapsto> (qual rec, l)))"
  using assms by (auto simp add: mapOK_def)

lemma secondRead_Some:
  assumes "secondRead m hv rec = Some (pq, al, m')" "mapOK h c recs m"
  shows "mapOK h c recs m' \<and>
    (\<exists>r1 \<in> set recs. hash_pair h r1 = hv \<and> pq = min (qual r1) (qual rec) \<and>
       minMapQual c \<le> unat (qual r1))"
proof -
  from assms(1) obtain q where q: "m hv = Some (q, al)" "q \<noteq> 0"
    "pq = min q (qual rec)" "m' = m(hv \<mapsto> (0, al))"
    by (auto simp add: secondRead_def split: option.splits if_splits)
  from assms(2) q(1,2) obtain r1 where "r1 \<in> set recs" "hash_pair h r1 = hv" "qual r1 = q"
    "minMapQual c \<le> unat (qual r1)"
    unfolding mapOK_def by blast
  moreover have "mapOK h c recs m'"
    using assms(2) q(4) by (auto simp add: mapOK_def)
  ultimately show ?thesis using q(3) by auto
qed

lemma set_concat_list_update_append:
  assumes "i < length xss"
  shows "set (concat (xss[i := xss ! i @ [b]])) = insert b (set (concat xss))"
proof -
  have split: "xss = take i xss @ (xss ! i) # drop (Suc i) xss"
    using assms by (simp add: id_take_nth_drop)
  then have "xss[i := xss ! i @ [b]] = take i xss @ (xss ! i @ [b]) # drop (Suc i) xss"
    using assms by (simp add: upd_conv_take_nth_drop)
  moreover have "set (concat xss) =
      set (concat (take i xss)) \<union> set (xss ! i) \<union> set (concat (drop (Suc i) xss))"
    using split by (metis concat.simps(2) concat_append set_append sup_assoc)
  ultimately show ?thesis by auto
qed

lemma pushEvidence_inv:
  assumes "pushEvidence t b st = Inr st'" "scanInv h c recs bam0 st" "pairEvidenceOK h c recs b"
  shows "scanInv h c recs bam0 st'"
proof -
  from assms(1) have t: "nat t < length (bamRecord st)"
    and st': "st' = st\<lparr>bamRecord := (bamRecord st)[nat t := bamRecord st ! nat t @ [b]],
                       abnormal_pairs := abnormal_pairs st + 1\<rparr>"
    by (auto simp add: pushEvidence_def split: if_splits)
  have "set (concat (bamRecord st')) = insert b (set (concat (bamRecord st)))"
    unfolding st' using set_concat_list_update_append [OF t] by simp
  with assms(2,3) show ?thesis
    unfolding scanInv_def evidenceOK_def st' by simp
qed

lemma mateReconcile_inv:
  assumes "mateReconcile h lib seed t rec st = Inr st'"
    and "scanInv h c recs bam0 st" and "rec \<in> set recs" and "minMapQual c \<le> unat (qual rec)"
  shows "scanInv h c recs bam0 st'"
proof -
  define st1 where "st1 = (if pos rec > lastAlignedPos st
                 then st\<lparr>lastAlignedPosReads := {}, lastAlignedPos := pos rec\<rparr> else st)"
  have inv1: "scanInv h c recs bam0 st1"
    using assms(2) by (simp add: st1_def scanInv_def evidenceOK_def)
  show ?thesis
  proof (cases "firstPairObs h rec (lastAlignedPosReads st1)")
    case True
    with assms(1) have "st' = (if translocationSvt h t
        then st1\<lparr>lastAlignedPosReads := insert (unat seed) (lastAlignedPosReads st1),
                 matetra := (matetra st1)(hash_pair h rec \<mapsto> (qual rec, alignmentLength h rec))\<rparr>
        else st1\<lparr>lastAlignedPosReads := insert (unat seed) (lastAlignedPosReads st1),
                 mateMap := (mateMap st1)(hash_pair h rec \<mapsto> (qual rec, alignmentLength h rec))\<rparr>)"
      by (auto simp add: mateReconcile_def Let_def st1_def split: if_splits)
    with inv1 mapOK_store [OF _ assms(3,4)] show ?thesis
      by (simp add: scanInv_def evidenceOK_def)
  next
    case False
    let ?hv = "hash_pair_mate h rec"
    let ?m = "if translocationSvt h t then matetra st1 else mateMap st1"
    have mOK: "mapOK h c recs ?m" using inv1 by (simp add: scanInv_def)
    show ?thesis
    proof (cases "secondRead ?m ?hv rec")
      case None
      with assms(1) False have "st' = st1"
        by (auto simp add: mateReconcile_def Let_def st1_def split: if_splits)
      with inv1 show ?thesis by simp
    next
      case (Some x)
      obtain pq al m' where x: "x = (pq, al, m')" by (cases x) auto
      from secondRead_Some [OF Some [unfolded x] mOK]
      obtain r1 where m': "mapOK h c recs m'" and r1: "r1 \<in> set recs" "hash_pair h r1 = ?hv"
        "pq = min (qual r1) (qual rec)" "minMapQual c \<le> unat (qual r1)"
        by blast
      have ev: "pairEvidenceOK h c recs (evidence h lib rec pq al)"
        unfolding pairEvidenceOK_def evidence_def
        using r1 assms(3,4) by auto
      let ?st2 = "if translocationSvt h t then st1\<lparr>matetra := m'\<rparr> else st1\<lparr>mateMap := m'\<rparr>"
      have inv2: "scanInv h c recs bam0 ?st2"
        using inv1 m' by (simp add: scanInv_def evidenceOK_def)
      have "pushEvidence t (evidence h lib rec pq al) ?st2 = Inr st'"
        using assms(1) False Some x
        by (auto simp add: mateReconcile_def Let_def st1_def split: if_splits)
      from pushEvidence_inv [OF this inv2 ev] show ?thesis .
    qed
  qed
qed

lemma pairedEnd_inv:
  assumes "pairedEnd h c lib vr seed rec st = Inr st'"
    and "scanInv h c recs bam0 st" and "rec \<in> set recs" and "minMapQual c \<le> unat (qual rec)"
  shows "scanInv h c recs bam0 st'"
proof (cases "st' = st")
  case True
  with assms(2) show ?thesis by simp
next
  case False
  with assms(1) have
    "mateReconcile h lib seed (isizeMappingPos h rec (overallMaxISize lib)) rec st = Inr st'"
    by (auto simp add: pairedEnd_def Let_def split: if_splits)
  from mateReconcile_inv [OF this assms(2,3,4)] show ?thesis .
qed

lemma scanRead_inv:
  assumes "scanRead h c lib vr rec st = Inr st'"
    and "scanInv h c recs bam0 st" and "rec \<in> set recs"
  shows "scanInv h c recs bam0 st'"
proof (cases "passesScanFilter c rec")
  case False
  with assms show ?thesis by (simp add: scanRead_def)
next
  case True
  then have q: "minMapQual c \<le> unat (qual rec)"
    by (simp add: passesScanFilter_def)
  let ?st1 = "st\<lparr>readBp := parseCigar c (seedOf h rec) rec (readBp st)\<rparr>"
  have inv1: "scanInv h c recs bam0 ?st1"
    using assms(2) by (simp add: scanInv_def evidenceOK_def)
  from assms(1) True have "pairedEnd h c lib vr (seedOf h rec) rec ?st1 = Inr st'"
    by (simp add: scanRead_def Let_def)
  from pairedEnd_inv [OF this inv1 assms(3) q] show ?thesis .
qed

lemma scanReads_inv:
  "scanReads h c lib vr xs st = Inr st' \<Longrightarrow> scanInv h c recs bam0 st \<Longrightarrow>
   set xs \<subseteq> set recs \<Longrightarrow> scanInv h c recs bam0 st'"
proof (induction xs arbitrary: st)
  case Nil
  then show ?case by simp
next
  case (Cons r xs)
  from Cons.prems(1) obtain st1 where st1: "scanRead h c lib vr r st = Inr st1"
    "scanReads h c lib vr xs st1 = Inr st'"
    by (auto split: sum.splits)
  from scanRead_inv [OF st1(1) Cons.prems(2)] Cons.prems(3)
  have "scanInv h c recs bam0 st1" by simp
  from Cons.IH [OF st1(2) this] Cons.prems(3) show ?case by simp
qed

lemma scanIntervals_inv:
  "scanIntervals h c lib vr ivs st = Inr st' \<Longrightarrow> scanInv h c recs bam0 st \<Longrightarrow>
   set (concat ivs) \<subseteq> set recs \<Longrightarrow> scanInv h c recs bam0 st'"
proof (induction ivs arbitrary: st)
  case Nil
  then show ?case by simp
next
  case (Cons iv ivs)
  let ?st0 = "st\<lparr>lastAlignedPos := 0, lastAlignedPosReads := {}\<rparr>"
  from Cons.prems(1) obtain st1 where st1: "scanReads h c lib vr iv ?st0 = Inr st1"
    "scanIntervals h c lib vr ivs st1 = Inr st'"
    by (auto split: sum.splits)
  have "scanInv h c recs bam0 ?st0"
    using Cons.prems(2) by (simp add: scanInv_def evidenceOK_def)
  from scanReads_inv [OF st1(1) this] Cons.prems(3)
  have "scanInv h c recs bam0 st1" by simp
  from Cons.IH [OF st1(2) this] Cons.prems(3) show ?case by simp
qed

lemma scanRefs_inv:
  "scanRefs h c lib vr isCram i refs st = Inr st' \<Longrightarrow> scanInv h c recs bam0 st \<Longrightarrow>
   set (scannedReads vr isCram i refs) \<subseteq> set recs \<Longrightarrow> scanInv h c recs bam0 st'"
proof (induction refs arbitrary: i st)
  case Nil
  then show ?case by simp
next
  case (Cons ref refs)
  show ?case
  proof (cases "vr ! i = [] \<or> (\<not> isCram \<and> fst ref = 0)")
    case True
    with Cons.prems have "scanRefs h c lib vr isCram (Suc i) refs st = Inr st'"
      "set (scannedReads vr isCram (Suc i) refs) \<subseteq> set recs"
      by (auto split: if_splits)
    from Cons.IH [OF this(1) Cons.prems(2) this(2)] show ?thesis .
  next
    case False
    let ?st0 = "st\<lparr>mateMap := Map.empty\<rparr>"
    from Cons.prems(1) False obtain st1 where st1:
      "scanIntervals h c lib vr (snd ref) ?st0 = Inr st1"
      "scanRefs h c lib vr isCram (Suc i) refs st1 = Inr st'"
      by (auto split: if_splits sum.splits)
    from Cons.prems(3) False have sub: "set (concat (snd ref)) \<subseteq> set recs"
      "set (scannedReads vr isCram (Suc i) refs) \<subseteq> set recs"
      by auto
    have "scanInv h c recs bam0 ?st0"
      using Cons.prems(2) by (simp add: scanInv_def evidenceOK_def mapOK_empty)
    from scanIntervals_inv [OF st1(1) this sub(1)]
    have "scanInv h c recs bam0 st1" .
    from Cons.IH [OF st1(2) this sub(2)] show ?thesis .
  qed
qed

text \<open>
  C4, as the claim states it, fails in its second half: with \<open>minMapQual = 20\<close> two mates
  of mapping quality exactly 20 pass the filter of line 270 (\<open>qual < minMapQual\<close>) and
  yield an evidence record, though neither quality exceeds \<open>minMapQual\<close>.
\<close>

theorem evidence_at_minMapQual:
  "allEvidence (scanSample exampleHelpers cfg25 (lib500 300) oneRegion False (pairRefs 20 600)
      (emptyBamRecord exampleHelpers) 0) = [pairEvidence 20 600 300] \<and>
   minMapQual cfg25 = 20 \<and>
   unat (qual (pe_first 20 600)) = 20 \<and> unat (qual (pe_second 20 600)) = 20 \<and>
   \<not> minMapQual cfg25 < unat (qual (pe_first 20 600)) \<and>
   \<not> minMapQual cfg25 < unat (qual (pe_second 20 600))"
  by code_simp

text \<open>
  C4, amended: every pair-evidence record a sample's worker appends was built from a
  read \<open>r2\<close> of the sample whose pair hash is the one a read \<open>r1\<close> of the sample was
  stored under; its pair quality is the minimum of the two reads' mapping qualities, and
  neither mapping quality is below \<open>minMapQual\<close> (a quality equal to \<open>minMapQual\<close>
  passes the filter).
\<close>

theorem pair_quality_minimum:
  assumes "scanSample h c lib vr isCram refs bam0 n0 = Inr st"
  shows "\<forall>b \<in> set (concat (bamRecord st)).
           b \<in> set (concat bam0) \<or> pairEvidenceOK h c (scannedReads vr isCram 0 refs) b"
proof -
  have "scanInv h c (scannedReads vr isCram 0 refs) bam0 (initScan bam0 n0)"
    by (simp add: scanInv_def evidenceOK_def mapOK_empty initScan_def)
  from scanRefs_inv [OF assms [unfolded scanSample_def] this]
  show ?thesis by (simp add: scanInv_def evidenceOK_def)
qed

theorem pair_quality_minimum_witness:
  "allEvidence (scanSample exampleHelpers cfg25 (lib500 300) oneRegion False (pairRefs 60 600)
      (emptyBamRecord exampleHelpers) 0) = [pairEvidence 60 600 300] \<and>
   pairEvidenceOK exampleHelpers cfg25 [pe_first 60 600, pe_second 60 600]
     (pairEvidence 60 600 300)"
proof -
  let ?run = "scanSample exampleHelpers cfg25 (lib500 300) oneRegion False (pairRefs 60 600)
      (emptyBamRecord exampleHelpers) 0"
  have e: "allEvidence ?run = [pairEvidence 60 600 300]"
    by code_simp
  then obtain st where st: "?run = Inr st"
    by (cases ?run) (auto simp add: allEvidence_def)
  have reads: "scannedReads oneRegion False 0 (pairRefs 60 600) =
      [pe_first 60 600, pe_second 60 600]"
    by (simp add: oneRegion_def pairRefs_def)
  from e st have new: "concat (bamRecord st) = [pairEvidence 60 600 300]"
    by (simp add: allEvidence_def)
  have old: "concat (emptyBamRecord exampleHelpers) = []"
    by (simp add: emptyBamRecord_def)
  from pair_quality_minimum [OF st] show ?thesis
    unfolding new old reads using e by simp
qed

text \<open>
  C8, as the claim states it, fails: with \<open>maxISizeCutoff = 500\<close> a pair classified as a
  deletion candidate whose absolute insert size is exactly 500 does not exceed the
  cutoff, yet the test of line 326 (\<open>maxISizeCutoff > abs(isize)\<close>) lets it through and
  the pair yields an evidence record.
\<close>

theorem deletion_at_cutoff_is_kept:
  "isizeMappingPos exampleHelpers (pe_first 60 500) (overallMaxISize (lib500 300)) = 2 \<and>
   isizeMappingPos exampleHelpers (pe_second 60 500) (overallMaxISize (lib500 300)) = 2 \<and>
   \<bar>isize (pe_first 60 500)\<bar> = maxISizeCutoff (lib500 300) \<and>
   \<bar>isize (pe_second 60 500)\<bar> = maxISizeCutoff (lib500 300) \<and>
   allEvidence (scanSample exampleHelpers cfg25 (lib500 300) oneRegion False (pairRefs 60 500)
      (emptyBamRecord exampleHelpers) 0) = [pairEvidence 60 500 300]"
  by code_simp

text \<open>
  C8, amended: a paired read classified as a deletion candidate (\<open>svt = 2\<close>) whose
  absolute insert size is below the sample's \<open>maxISizeCutoff\<close> is rejected: the
  paired-end part leaves the state as it is (when the mate's reference id is within
  \<open>validRegions\<close>, which line 317 indexes first). So the pair reaches the mate
  reconciliation only if its absolute insert size is at least \<open>maxISizeCutoff\<close>.
\<close>

theorem deletion_isize_gate:
  assumes "isizeMappingPos h rec (overallMaxISize lib) = 2"
  shows "(\<bar>isize rec\<bar> < maxISizeCutoff lib \<and> mtid rec < int (length vr) \<longrightarrow>
            pairedEnd h c lib vr seed rec st = Inr st) \<and>
         (\<forall>st'. pairedEnd h c lib vr seed rec st = Inr st' \<and> st' \<noteq> st \<longrightarrow>
            maxISizeCutoff lib \<le> \<bar>isize rec\<bar>)"
proof (intro conjI allI impI)
  assume "\<bar>isize rec\<bar> < maxISizeCutoff lib \<and> mtid rec < int (length vr)"
  then have "mtid rec < 0 \<or> nat (mtid rec) < length vr" "maxISizeCutoff lib > \<bar>isize rec\<bar>"
    by auto
  with assms show "pairedEnd h c lib vr seed rec st = Inr st"
    by (auto simp add: pairedEnd_def Let_def)
next
  fix st' assume "pairedEnd h c lib vr seed rec st = Inr st' \<and> st' \<noteq> st"
  with assms show "maxISizeCutoff lib \<le> \<bar>isize rec\<bar>"
    by (auto simp add: pairedEnd_def Let_def split: if_splits)
qed

theorem deletion_isize_gate_witness:
  "isizeMappingPos orientationOnly (pe_first 60 499) (overallMaxISize (lib500 300)) = 2 \<and>
   pairedEnd orientationOnly cfg25 (lib500 300) oneRegion 161 (pe_first 60 499)
     (initScan (emptyBamRecord orientationOnly) 0) = Inr (initScan (emptyBamRecord orientationOnly) 0) \<and>
   mateMap (case pairedEnd orientationOnly cfg25 (lib500 300) oneRegion 161 (pe_first 60 500)
              (initScan (emptyBamRecord orientationOnly) 0) of Inr st \<Rightarrow> st) 161 = Some (60, 0) \<and>
   maxISizeCutoff (lib500 300) \<le> \<bar>isize (pe_first 60 500)\<bar>"
proof -
  let ?st0 = "initScan (emptyBamRecord orientationOnly) 0"
  let ?st1 = "?st0\<lparr>lastAlignedPosReads := {161}, lastAlignedPos := 100,
                   mateMap := [161 \<mapsto> (60, 0)]\<rparr>"
  have c1: "isizeMappingPos orientationOnly (pe_first 60 499) (overallMaxISize (lib500 300)) = 2"
    and c2: "isizeMappingPos orientationOnly (pe_first 60 500) (overallMaxISize (lib500 300)) = 2"
    by (simp_all add: orientationOnly_def exampleHelpers_def pe_first_def)
  have small: "\<bar>isize (pe_first 60 499)\<bar> < maxISizeCutoff (lib500 300) \<and>
      mtid (pe_first 60 499) < int (length oneRegion)"
    by (simp add: pe_first_def lib500_def oneRegion_def)
  have kept: "pairedEnd orientationOnly cfg25 (lib500 300) oneRegion 161 (pe_first 60 500) ?st0 =
      Inr ?st1"
    by (simp add: pairedEnd_def mateReconcile_def orientationOnly_def exampleHelpers_def
        pe_first_def lib500_def oneRegion_def cfg25_def initScan_def overallMaxISize_def
        BAM_FPAIRED_def BAM_FSECONDARY_def BAM_FSUPPLEMENTARY_def BAM_FMUNMAP_def)
  have changed: "?st1 \<noteq> ?st0"
    by (simp add: initScan_def)
  from deletion_isize_gate [OF c1, THEN conjunct1, rule_format, OF small]
    deletion_isize_gate [OF c2, THEN conjunct2, rule_format, OF conjI [OF kept changed]]
    c1 kept
  show ?thesis by simp
qed

lemma extractJunctions_append:
  "extractJunctions h c (xs @ ys) bp = extractJunctions h c ys (extractJunctions h c xs bp)"
  by (simp add: extractJunctions_def)

lemma extractJunctions_Cons:
  "extractJunctions h c (x # xs) bp =
     extractJunctions h c xs
       (if passesScanFilter c x then parseCigar c (seedOf h x) x bp else bp)"
  by (simp add: extractJunctions_def)

lemma scanRead_single_end:
  assumes "median lib = 0"
  shows "scanRead h c lib vr rec st =
           Inr (st\<lparr>readBp := extractJunctions h c [rec] (readBp st)\<rparr>)"
  using assms by (simp add: scanRead_def pairedEnd_def extractJunctions_def Let_def)

lemma scanReads_single_end:
  assumes "median lib = 0"
  shows "scanReads h c lib vr recs st =
           Inr (st\<lparr>readBp := extractJunctions h c recs (readBp st)\<rparr>)"
proof (induction recs arbitrary: st)
  case Nil
  show ?case by (simp add: extractJunctions_def)
next
  case (Cons r recs)
  show ?case
    by (simp add: scanRead_single_end [OF assms] Cons.IH extractJunctions_Cons
        extractJunctions_def)
qed

lemma scanIntervals_single_end:
  assumes "median lib = 0"
  shows "\<exists>st'. scanIntervals h c lib vr ivs st = Inr st' \<and> sameEvidence st st' \<and>
           readBp st' = extractJunctions h c (concat ivs) (readBp st)"
proof (induction ivs arbitrary: st)
  case Nil
  show ?case by (simp add: extractJunctions_def sameEvidence_def)
next
  case (Cons iv ivs)
  let ?st1 = "st\<lparr>lastAlignedPos := 0, lastAlignedPosReads := {},
                 readBp := extractJunctions h c iv (readBp st)\<rparr>"
  from Cons.IH [of ?st1] obtain st' where
    "scanIntervals h c lib vr ivs ?st1 = Inr st'" "sameEvidence ?st1 st'"
    "readBp st' = extractJunctions h c (concat ivs) (readBp ?st1)"
    by blast
  then show ?case
    by (simp add: scanReads_single_end [OF assms] extractJunctions_append sameEvidence_def)
qed

lemma scanRefs_single_end:
  assumes "median lib = 0"
  shows "i + length refs \<le> length vr \<Longrightarrow>
         \<exists>st'. scanRefs h c lib vr isCram i refs st = Inr st' \<and> sameEvidence st st' \<and>
           readBp st' = extractJunctions h c (scannedReads vr isCram i refs) (readBp st)"
proof (induction refs arbitrary: i st)
  case Nil
  show ?case by (simp add: extractJunctions_def sameEvidence_def)
next
  case (Cons ref refs)
  from Cons.prems have i: "i < length vr" and rest: "Suc i + length refs \<le> length vr"
    by simp_all
  show ?case
  proof (cases "vr ! i = [] \<or> (\<not> isCram \<and> fst ref = 0)")
    case True
    with Cons.IH [OF rest, of st] i show ?thesis by auto
  next
    case False
    from scanIntervals_single_end [OF assms, of h c vr "snd ref" "st\<lparr>mateMap := Map.empty\<rparr>"]
    obtain st1 where st1:
      "scanIntervals h c lib vr (snd ref) (st\<lparr>mateMap := Map.empty\<rparr>) = Inr st1"
      "sameEvidence (st\<lparr>mateMap := Map.empty\<rparr>) st1"
      "readBp st1 = extractJunctions h c (concat (snd ref)) (readBp st)"
      by auto
    from Cons.IH [OF rest, of st1] obtain st' where
      "scanRefs h c lib vr isCram (Suc i) refs st1 = Inr st'" "sameEvidence st1 st'"
      "readBp st' = extractJunctions h c (scannedReads vr isCram (Suc i) refs) (readBp st1)"
      by blast
    with st1 False i show ?thesis
      by (auto simp add: sameEvidence_def extractJunctions_append)
  qed
qed

text \<open>
  C9: for a sample whose library median is 0, the paired-end part rejects every read
  (line 312), so a read changes nothing but the junction map, which receives the
  junctions of every read that passes the input filters; and the worker of such a
  sample returns with the pair-evidence vectors, the counter of abnormal pairs and the
  inter-chromosomal mate map as they were, and with the junction map that junction
  extraction alone builds from the reads of the references it scans.
\<close>

theorem single_end_library:
  assumes "median lib = 0"
  shows "scanRead h c lib vr rec st =
           Inr (st\<lparr>readBp := if passesScanFilter c rec
                               then parseCigar c (seedOf h rec) rec (readBp st)
                               else readBp st\<rparr>) \<and>
         (length refs \<le> length vr \<longrightarrow>
           (\<exists>st'. scanSample h c lib vr isCram refs bam0 n0 = Inr st' \<and>
              bamRecord st' = bam0 \<and> abnormal_pairs st' = n0 \<and> matetra st' = Map.empty \<and>
              readBp st' = extractJunctions h c (scannedReads vr isCram 0 refs) Map.empty))"
proof (intro conjI impI)
  show "scanRead h c lib vr rec st =
           Inr (st\<lparr>readBp := if passesScanFilter c rec
                               then parseCigar c (seedOf h rec) rec (readBp st)
                               else readBp st\<rparr>)"
    by (simp add: scanRead_single_end [OF assms] extractJunctions_def)
next
  assume "length refs \<le> length vr"
  then have "0 + length refs \<le> length vr" by simp
  from scanRefs_single_end [OF assms this, of h c isCram "initScan bam0 n0"]
  show "\<exists>st'. scanSample h c lib vr isCram refs bam0 n0 = Inr st' \<and>
              bamRecord st' = bam0 \<and> abnormal_pairs st' = n0 \<and> matetra st' = Map.empty \<and>
              readBp st' = extractJunctions h c (scannedReads vr isCram 0 refs) Map.empty"
    by (auto simp add: scanSample_def sameEvidence_def initScan_def)
qed

theorem single_end_library_witness:
  "median (lib500 0) = 0 \<and>
   (\<exists>st'. scanSample exampleHelpers cfg25 (lib500 0) oneRegion False
            [(2, [[pe_clip, pe_first 60 600, pe_second 60 600]])]
            (emptyBamRecord exampleHelpers) 0 = Inr st' \<and>
      bamRecord st' = emptyBamRecord exampleHelpers \<and>
      junctionsOf (readBp st') 162 =
        [\<lparr>forward = True, scleft = True, refidx = 0, refpos = 100, seqpos = 30\<rparr>])"
proof -
  let ?refs = "[(2::nat, [[pe_clip, pe_first 60 600, pe_second 60 600]])]"
  have m: "median (lib500 0) = 0" by (simp add: lib500_def)
  have len: "length ?refs \<le> length oneRegion" by (simp add: oneRegion_def)
  have j: "junctionsOf (extractJunctions exampleHelpers cfg25
             (scannedReads oneRegion False 0 ?refs) Map.empty) 162 =
        [\<lparr>forward = True, scleft = True, refidx = 0, refpos = 100, seqpos = 30\<rparr>]"
    by code_simp
  from single_end_library [OF m, THEN conjunct2, rule_format, OF len,
      of exampleHelpers cfg25 False "emptyBamRecord exampleHelpers" 0] j m
  show ?thesis by auto
qed

section \<open>Tracking the split reads: properties\<close>

lemma trackOne_lookup:
  assumes "trackOne r store = Inr store'"
  shows "length store' = length store \<and>
         lookupSR store' c k = (if writes r c k then Some (svid_sr r) else lookupSR store c k)"
proof (cases "svid_sr r = - 1")
  case True
  with assms show ?thesis by (simp add: trackOne_def writes_def)
next
  case False
  let ?s1 = "store[nat (chr_sr r) :=
               AList.update (pos_sr r, id_sr r) (svid_sr r) (store ! nat (chr_sr r))]"
  from False assms have r1: "0 \<le> chr_sr r" "nat (chr_sr r) < length store"
    and r2: "0 \<le> chr2_sr r" "nat (chr2_sr r) < length store"
    and st: "store' = ?s1[nat (chr2_sr r) :=
               AList.update (pos2_sr r, id_sr r) (svid_sr r) (?s1 ! nat (chr2_sr r))]"
    by (auto simp add: trackOne_def Let_def split: if_splits)
  have len: "length store' = length store" by (simp add: st)
  have eqs: "\<And>a b. 0 \<le> a \<Longrightarrow> 0 \<le> b \<Longrightarrow> (nat a = nat b) = (a = b)" by auto
  show ?thesis
  proof (cases "0 \<le> c \<and> nat c < length store")
    case False
    with r1 r2 len show ?thesis
      by (auto simp add: lookupSR_def writes_def)
  next
    case True
    with r1 r2 \<open>svid_sr r \<noteq> - 1\<close> show ?thesis
      unfolding st lookupSR_def writes_def
      by (auto simp add: nth_list_update update_conv' eqs)
  qed
qed

lemma trackAll_lookup:
  "trackAll recs store = Inr store' \<Longrightarrow>
   length store' = length store \<and>
   lookupSR store' c k = lastWrite recs c k (lookupSR store c k)"
proof (induction recs arbitrary: store)
  case Nil
  then show ?case by simp
next
  case (Cons r recs)
  from Cons.prems obtain store1 where s1: "trackOne r store = Inr store1"
    "trackAll recs store1 = Inr store'"
    by (auto split: sum.splits)
  from trackOne_lookup [OF s1(1), of c k] Cons.IH [OF s1(2)] show ?case by simp
qed

lemma lastWrite_Some: "lastWrite recs c k (Some v) \<noteq> None"
  by (induction recs arbitrary: v) auto

lemma lastWrite_written:
  "\<exists>r \<in> set recs. writes r c k \<Longrightarrow> lastWrite recs c k acc \<noteq> None"
proof (induction recs arbitrary: acc)
  case Nil
  then show ?case by simp
next
  case (Cons r recs)
  show ?case
  proof (cases "writes r c k")
    case True
    then show ?thesis by (simp add: lastWrite_Some)
  next
    case False
    with Cons.prems have "\<exists>r \<in> set recs. writes r c k" by auto
    from Cons.IH [OF this] False show ?thesis by simp
  qed
qed

lemma lastWrite_same:
  "\<forall>r' \<in> set post. writes r' c k \<longrightarrow> svid_sr r' = v \<Longrightarrow>
   lastWrite post c k (Some v) = Some v"
  by (induction post) auto

lemma lastWrite_append:
  "lastWrite (pre @ post) c k acc = lastWrite post c k (lastWrite pre c k acc)"
  by (induction pre arbitrary: acc) auto

lemma lastWrite_last:
  assumes "writes r c k" "\<forall>r' \<in> set post. writes r' c k \<longrightarrow> svid_sr r' = svid_sr r"
  shows "lastWrite (pre @ r # post) c k acc = Some (svid_sr r)"
  using assms by (simp add: lastWrite_append lastWrite_same)

lemma lastWrite_origin:
  "lastWrite recs c k acc = acc \<or>
   (\<exists>r \<in> set recs. writes r c k \<and> lastWrite recs c k acc = Some (svid_sr r))"
proof (induction recs arbitrary: acc)
  case Nil
  then show ?case by simp
next
  case (Cons r recs)
  show ?case
  proof (cases "writes r c k")
    case False
    with Cons.IH [of acc] show ?thesis by auto
  next
    case True
    with Cons.IH [of "Some (svid_sr r)"] show ?thesis by auto
  qed
qed

text \<open>
  C1, as the claim states it, fails: the back-index holds one value per key, and line
  432 or 433 overwrites the value a key already has. Two assigned records of one read
  that share the breakpoint at position 150 and belong to SVs 0 and 1 leave the two
  endpoints of the first record mapped to different svids, 1 and 0.
\<close>

theorem shared_endpoint_is_overwritten:
  "svid_sr recA = 0 \<and>
   trackSplitReads [[], [], [recA, recB]] [[]] =
     Inr [[((150, 7), 1), ((180, 7), 0), ((230, 7), 1)]] \<and>
   lookupSR [[((150, 7), 1), ((180, 7), 0), ((230, 7), 1)]]
     (chr_sr recA) (pos_sr recA, id_sr recA) = Some 1 \<and>
   lookupSR [[((150, 7), 1), ((180, 7), 0), ((230, 7), 1)]]
     (chr2_sr recA) (pos2_sr recA, id_sr recA) = Some 0"
  by (simp add: trackSplitReads_def trackOne_def recA_def recB_def lookupSR_def)

text \<open>
  C1, amended: after the tracking loop, for every SR-breakpoint record whose svid is
  assigned the back-index contains entries for both endpoints; both entries map to the
  record's svid when no assigned record later in the loop shares one of its two keys
  with a different svid (a key always holds the svid of the last assigned record that
  has it as an endpoint). Records with svid \<open>-1\<close> insert nothing: every entry that the
  loop adds or changes is an endpoint of an assigned record and holds its svid.
\<close>

theorem srStore_endpoints:
  assumes "trackSplitReads srBR store = Inr store'"
  shows "(\<forall>r \<in> set (concat srBR). svid_sr r \<noteq> - 1 \<longrightarrow>
            lookupSR store' (chr_sr r) (pos_sr r, id_sr r) \<noteq> None \<and>
            lookupSR store' (chr2_sr r) (pos2_sr r, id_sr r) \<noteq> None) \<and>
         (\<forall>pre r post. concat srBR = pre @ r # post \<and> svid_sr r \<noteq> - 1 \<and>
            (\<forall>r' \<in> set post. sharesKey r' r \<longrightarrow> svid_sr r' = svid_sr r) \<longrightarrow>
            lookupSR store' (chr_sr r) (pos_sr r, id_sr r) = Some (svid_sr r) \<and>
            lookupSR store' (chr2_sr r) (pos2_sr r, id_sr r) = Some (svid_sr r)) \<and>
         (\<forall>c k. lookupSR store' c k = lookupSR store c k \<or>
            (\<exists>r \<in> set (concat srBR). svid_sr r \<noteq> - 1 \<and> writes r c k \<and>
               lookupSR store' c k = Some (svid_sr r))) \<and>
         (\<forall>r s. svid_sr r = - 1 \<longrightarrow> trackOne r s = Inr s)"
proof -
  note lk = trackAll_lookup [OF assms [unfolded trackSplitReads_def], THEN conjunct2]
  show ?thesis
  proof (intro conjI ballI allI impI)
    fix r assume "r \<in> set (concat srBR)" "svid_sr r \<noteq> - 1"
    then have "\<exists>r' \<in> set (concat srBR). writes r' (chr_sr r) (pos_sr r, id_sr r)"
      "\<exists>r' \<in> set (concat srBR). writes r' (chr2_sr r) (pos2_sr r, id_sr r)"
      by (auto simp add: writes_def)
    then show "lookupSR store' (chr_sr r) (pos_sr r, id_sr r) \<noteq> None"
      "lookupSR store' (chr2_sr r) (pos2_sr r, id_sr r) \<noteq> None"
      by (simp_all add: lk lastWrite_written)
  next
    fix pre r post
    assume a: "concat srBR = pre @ r # post \<and> svid_sr r \<noteq> - 1 \<and>
            (\<forall>r' \<in> set post. sharesKey r' r \<longrightarrow> svid_sr r' = svid_sr r)"
    then have w: "writes r (chr_sr r) (pos_sr r, id_sr r)"
      "writes r (chr2_sr r) (pos2_sr r, id_sr r)"
      by (simp_all add: writes_def)
    from a have p:
      "\<forall>r' \<in> set post. writes r' (chr_sr r) (pos_sr r, id_sr r) \<longrightarrow> svid_sr r' = svid_sr r"
      "\<forall>r' \<in> set post. writes r' (chr2_sr r) (pos2_sr r, id_sr r) \<longrightarrow> svid_sr r' = svid_sr r"
      by (auto simp add: sharesKey_def)
    from a have c: "concat srBR = pre @ r # post" by simp
    show "lookupSR store' (chr_sr r) (pos_sr r, id_sr r) = Some (svid_sr r)"
      unfolding lk c by (rule lastWrite_last [OF w(1) p(1)])
    show "lookupSR store' (chr2_sr r) (pos2_sr r, id_sr r) = Some (svid_sr r)"
      unfolding lk c by (rule lastWrite_last [OF w(2) p(2)])
  next
    fix c k
    from lastWrite_origin [of "concat srBR" c k "lookupSR store c k"]
    show "lookupSR store' c k = lookupSR store c k \<or>
            (\<exists>r \<in> set (concat srBR). svid_sr r \<noteq> - 1 \<and> writes r c k \<and>
               lookupSR store' c k = Some (svid_sr r))"
      unfolding lk by (auto simp add: writes_def)
  next
    fix r :: SRBamRecord and s assume "svid_sr r = - 1"
    then show "trackOne r s = Inr s" by (simp add: trackOne_def)
  qed
qed

theorem srStore_endpoints_witness:
  "trackSplitReads [[], [], [recA, recB, recU]] [[]] =
     Inr [[((150, 7), 1), ((180, 7), 0), ((230, 7), 1)]] \<and>
   lookupSR [[((150, 7), 1), ((180, 7), 0), ((230, 7), 1)]] 0 (150, 7) = Some 1 \<and>
   lookupSR [[((150, 7), 1), ((180, 7), 0), ((230, 7), 1)]] 0 (230, 7) = Some 1 \<and>
   lookupSR [[((150, 7), 1), ((180, 7), 0), ((230, 7), 1)]] 0 (400, 9) = None"
proof -
  have run: "trackSplitReads [[], [], [recA, recB, recU]] [[]] =
     Inr [[((150, 7), 1), ((180, 7), 0), ((230, 7), 1)]]"
    by (simp add: trackSplitReads_def trackOne_def recA_def recB_def recU_def)
  have split: "concat [[], [], [recA, recB, recU]] = [recA] @ recB # [recU] \<and>
     svid_sr recB \<noteq> - 1 \<and>
     (\<forall>r' \<in> set [recU]. sharesKey r' recB \<longrightarrow> svid_sr r' = svid_sr recB)"
    by (simp add: recB_def recU_def sharesKey_def writes_def)
  from srStore_endpoints [OF run, THEN conjunct2, THEN conjunct1, rule_format, OF split] run
  show ?thesis
    by (simp add: recB_def lookupSR_def)
qed

end
